theory Spec2Isabelle
  imports Main "HOL-Library.AList" "HOL-Library.Sublist"
begin

section \<open>JavaScript values\<close>

text \<open>
  The library works on untyped JavaScript values. A value is a primitive, a sequence
  (a dense array) or a plain object. An object is an association list of its own
  enumerable properties in enumeration order; \<open>obj[key] = v\<close> is \<open>AList.update\<close>
  (it rewrites the entry in place or appends a new one) and \<open>delete obj[key]\<close> is
  \<open>AList.delete\<close>. Numbers are integers here.

  Scope of the model: \<open>Date\<close> objects and functions (which \<open>isScalar\<close> also
  classifies as scalar) are not represented; properties inherited from
  \<open>Object.prototype\<close>, the \<open>length\<close> of an array and the index properties of a
  string are not properties of the model, so \<open>key in obj\<close> is a test on own keys;
  integer-like keys are enumerated where they were inserted. The module is strict
  mode code (it is an ES module and a class body), so a property assignment whose
  target is a primitive raises a \<open>TypeError\<close>.
\<close>

datatype jsval = Undefined | Null | JBool bool | Num int | Str string
  | Arr "jsval list" | Obj "(string \<times> jsval) list"

type_synonym jsprops = "(string \<times> jsval) list"

datatype error = InvalidOperation | TypeError

text \<open>\<open>isScalar(value)\<close>: \<open>typeof value !== 'object' || value instanceof Date || !value || typeof value === 'function'\<close>.\<close>

fun isScalar :: "jsval \<Rightarrow> bool" where
  "isScalar (Arr xs) = False"
| "isScalar (Obj kvs) = False"
| "isScalar v = True"

fun isArray :: "jsval \<Rightarrow> bool" where
  "isArray (Arr xs) = True"
| "isArray v = False"

text \<open>JavaScript truthiness, the meaning of \<open>!v\<close>, \<open>v || false\<close> and \<open>if (v)\<close>.\<close>

fun truthy :: "jsval \<Rightarrow> bool" where
  "truthy Undefined = False"
| "truthy Null = False"
| "truthy (JBool b) = b"
| "truthy (Num n) = (n \<noteq> 0)"
| "truthy (Str s) = (s \<noteq> [])"
| "truthy (Arr xs) = True"
| "truthy (Obj kvs) = True"

definition orFalse :: "jsval \<Rightarrow> jsval" where
  "orFalse v = (if truthy v then v else JBool False)"

text \<open>\<open>typeof v === 'object'\<close> (true of \<open>null\<close>).\<close>

fun typeofObject :: "jsval \<Rightarrow> bool" where
  "typeofObject Null = True"
| "typeofObject (Arr xs) = True"
| "typeofObject (Obj kvs) = True"
| "typeofObject v = False"

text \<open>Decimal rendering of an array index, the property key of a sequence element.\<close>

definition digit :: "nat \<Rightarrow> char" where
  "digit d = ''0123456789'' ! (d mod 10)"

fun showNat :: "nat \<Rightarrow> string" where
  "showNat n = (if n < 10 then [digit n] else showNat (n div 10) @ [digit (n mod 10)])"

declare showNat.simps [simp del]

definition arrKeys :: "jsval list \<Rightarrow> string list" where
  "arrKeys xs = map showNat [0..<length xs]"

text \<open>
  The own enumerable properties of a value, in \<open>for (key in v)\<close> order: the entries of
  an object, the elements of a sequence under their indices, nothing for a primitive.
\<close>

fun props :: "jsval \<Rightarrow> jsprops" where
  "props (Obj kvs) = kvs"
| "props (Arr xs) = zip (arrKeys xs) xs"
| "props v = []"

definition keysOf :: "jsval \<Rightarrow> string list" where
  "keysOf v = map fst (props v)"

text \<open>\<open>key in props\<close> and \<open>props[key]\<close> on a property list.\<close>

definition hasProp :: "string \<Rightarrow> jsprops \<Rightarrow> bool" where
  "hasProp k ps = (map_of ps k \<noteq> None)"

definition getProp :: "jsprops \<Rightarrow> string \<Rightarrow> jsval" where
  "getProp ps k = (case map_of ps k of None \<Rightarrow> Undefined | Some x \<Rightarrow> x)"

text \<open>\<open>key in v\<close> and \<open>v[key]\<close>; a missing property reads as \<open>undefined\<close>.\<close>

definition hasKey :: "string \<Rightarrow> jsval \<Rightarrow> bool" where
  "hasKey k v = hasProp k (props v)"

definition getKey :: "jsval \<Rightarrow> string \<Rightarrow> jsval" where
  "getKey v k = getProp (props v) k"

text \<open>
  \<open>hasKey\<close> and \<open>getKey\<close> read the own properties of a value. In the source,
  \<open>key in v\<close> and \<open>v[key]\<close> also find the names that every object inherits from
  \<open>Object.prototype\<close>: there \<open>'toString' in {}\<close> is true and \<open>{}['toString']\<close> is a
  built-in function, \<open>{}['__proto__']\<close> is the prototype itself, and an assignment to
  \<open>o['__proto__']\<close> creates no property. The two readings agree on every key that is
  not one of these names. A tree is \<open>protoFree\<close> when none of its keys is such a name;
  the general results on mask trees, values and paths are stated for \<open>protoFree\<close> trees
  and for paths without such a segment, and say nothing about the others.
\<close>

definition protoNames :: "string list" where
  "protoNames = [''constructor'', ''__defineGetter__'', ''__defineSetter__'',
     ''hasOwnProperty'', ''__lookupGetter__'', ''__lookupSetter__'', ''isPrototypeOf'',
     ''propertyIsEnumerable'', ''toString'', ''valueOf'', ''__proto__'', ''toLocaleString'']"

fun protoFree :: "jsval \<Rightarrow> bool" where
  "protoFree (Obj kvs) = list_all (\<lambda>(k, v). k \<notin> set protoNames \<and> protoFree v) kvs"
| "protoFree (Arr xs) = list_all protoFree xs"
| "protoFree v = True"

text \<open>
  \<open>for (key in keys) if (...) acc[key] = value\<close>: the body \<open>f\<close> gives the value written
  for a key, or \<open>None\<close> when the iteration writes nothing. In every loop of the source
  an iteration reads and writes only the key it visits, so the value is a function of
  the key and of the objects as they were when the loop started.
\<close>

fun forInSet :: "string list \<Rightarrow> (string \<Rightarrow> jsval option) \<Rightarrow> jsprops \<Rightarrow> jsprops" where
  "forInSet [] f acc = acc"
| "forInSet (k # ks) f acc =
     forInSet ks f (case f k of None \<Rightarrow> acc | Some v \<Rightarrow> AList.update k v acc)"

text \<open>\<open>for (key in keys) if (c key) delete acc[key]\<close>.\<close>

fun forInDelete :: "string list \<Rightarrow> (string \<Rightarrow> bool) \<Rightarrow> jsprops \<Rightarrow> jsprops" where
  "forInDelete [] c acc = acc"
| "forInDelete (k # ks) c acc = forInDelete ks c (if c k then AList.delete k acc else acc)"

lemma forInSet_cong [fundef_cong]:
  "ks = ks' \<Longrightarrow> (\<And>k. k \<in> set ks' \<Longrightarrow> f k = f' k) \<Longrightarrow> acc = acc'
   \<Longrightarrow> forInSet ks f acc = forInSet ks' f' acc'"
  by (induction ks arbitrary: ks' acc acc') auto

lemma size_props_less:
  "(k, c) \<in> set (props v) \<Longrightarrow> size c < size v"
proof (cases v)
  case (Arr xs)
  assume "(k, c) \<in> set (props v)"
  with Arr have "c \<in> set xs" by (auto dest: set_zip_rightD)
  then have "size c \<le> size_list size xs" by (simp add: size_list_estimation')
  with Arr show ?thesis by simp
next
  case (Obj kvs)
  assume "(k, c) \<in> set (props v)"
  with Obj have "(k, c) \<in> set kvs" by simp
  then have "size_prod (\<lambda>x. 0) size (k, c) \<le> size_list (size_prod (\<lambda>x. 0) size) kvs"
    by (rule size_list_estimation') simp
  with Obj show ?thesis by simp
qed auto

lemma size_getKey_less:
  "k \<in> set (keysOf v) \<Longrightarrow> size (getKey v k) < size v"
proof -
  assume "k \<in> set (keysOf v)"
  then obtain c where "map_of (props v) k = Some c"
    by (auto simp: keysOf_def) (metis weak_map_of_SomeI not_None_eq map_of_eq_None_iff fst_conv image_eqI)
  then show ?thesis
    by (auto simp: getKey_def getProp_def dest!: map_of_SomeD size_props_less)
qed

lemma size_getKey_le: "size (getKey v k) \<le> size v"
  by (auto simp: getKey_def getProp_def split: option.splits
      dest!: map_of_SomeD size_props_less less_imp_le)

lemma size_pair_left:
  "k \<in> set (keysOf a) \<Longrightarrow> size (getKey a k) + size (getKey b k') < size a + size b"
  by (rule add_less_le_mono [OF size_getKey_less size_getKey_le])

lemma size_pair_right:
  "k \<in> set (keysOf b) \<Longrightarrow> size (getKey a k') + size (getKey b k) < size a + size b"
  by (rule add_le_less_mono [OF size_getKey_le size_getKey_less])

lemma hasKey_keysOf: "hasKey k v \<longleftrightarrow> k \<in> set (keysOf v)"
  by (auto simp: hasKey_def hasProp_def keysOf_def map_of_eq_None_iff)

section \<open>Value primitives of the library\<close>

text \<open>
  \<open>scalarEquals\<close> is \<open>===\<close> on the primitives of the model (its \<open>Date\<close> branch compares
  instants). \<open>deepEquals\<close> follows the source branch by branch: two scalars by
  \<open>scalarEquals\<close>; a \<open>null\<close> or \<open>undefined\<close> side by identity; two sequences by length
  and position; two non-sequences key by key over the keys of both sides. The last
  branch is also taken for a plain object against a primitive that is neither \<open>null\<close> nor
  \<open>undefined\<close>: the primitive has no keys and every read of it is \<open>undefined\<close>.
\<close>

definition scalarEquals :: "jsval \<Rightarrow> jsval \<Rightarrow> bool" where
  "scalarEquals a1 a2 = (a1 = a2)"

function deepEquals :: "jsval \<Rightarrow> jsval \<Rightarrow> bool" where
  "deepEquals a b =
     (if isScalar a \<and> isScalar b then scalarEquals a b
      else if a = Null \<or> b = Null \<or> a = Undefined \<or> b = Undefined then a = b
      else if isArray a \<and> isArray b then
        (if length (props a) \<noteq> length (props b) then False
         else list_all (\<lambda>k. deepEquals (getKey a k) (getKey b k)) (keysOf a))
      else if \<not> isArray a \<and> \<not> isArray b then
        list_all (\<lambda>k. deepEquals (getKey a k) (getKey b k)) (keysOf a) \<and>
        list_all (\<lambda>k. deepEquals (getKey a k) (getKey b k)) (keysOf b)
      else False)"
  by pat_completeness auto
termination
  by (relation "measure (\<lambda>(a, b). size a + size b)") (auto intro: size_pair_left size_pair_right)

declare deepEquals.simps [simp del]

text \<open>
  \<open>deepCopy\<close>: a terminal value is returned as it is, a sequence and a plain object are
  rebuilt element by element. On values (without object identity) the copy equals the
  original.
\<close>

fun deepCopy :: "jsval \<Rightarrow> jsval" where
  "deepCopy (Arr xs) = Arr (map deepCopy xs)"
| "deepCopy (Obj kvs) = Obj (map (\<lambda>(k, v). (k, deepCopy v)) kvs)"
| "deepCopy v = v"

lemma deepCopy_id [simp]: "deepCopy v = v"
  by (induction v rule: deepCopy.induct) (auto intro!: map_idI)

text \<open>
  External library (lodash): \<open>_.cloneDeep\<close> is a deep copy, the identity on values of the
  model.
\<close>

definition cloneDeep :: "jsval \<Rightarrow> jsval" where
  "cloneDeep v = v"

section \<open>The mask engine\<close>

subsection \<open>Construction\<close>

text \<open>
  \<open>underscorizeArrays\<close> rewrites every property of the mask whose value is a sequence
  to \<open>{ _: underscorizeArrays(sequence[0]) }\<close> and descends into every property whose
  value is an object. The root itself is returned as it is.
\<close>

function underscorizeArrays :: "jsval \<Rightarrow> jsval" where
  "underscorizeArrays m =
     (case m of
        Obj kvs \<Rightarrow> Obj (forInSet (keysOf m) (\<lambda>subpath.
          (case getKey m subpath of
             Arr xs \<Rightarrow> Some (Obj [(''_'', underscorizeArrays (getKey (Arr xs) ''0''))])
           | Obj sub \<Rightarrow> Some (underscorizeArrays (Obj sub))
           | _ \<Rightarrow> None)) kvs)
      | Arr xs \<Rightarrow> Arr (map (\<lambda>submask.
          (case submask of
             Arr ys \<Rightarrow> Obj [(''_'', underscorizeArrays (getKey (Arr ys) ''0''))]
           | Obj sub \<Rightarrow> underscorizeArrays (Obj sub)
           | _ \<Rightarrow> submask)) xs)
      | _ \<Rightarrow> m)"
  by pat_completeness auto
termination
proof (relation "measure size")
  show "wf (measure size)" by simp
next
  fix m :: jsval and kvs subpath xs
  assume "m = Obj kvs" "subpath \<in> set (keysOf m)" "getKey m subpath = Arr xs"
  then have "size (Arr xs) < size m" by (metis size_getKey_less)
  moreover have "size (getKey (Arr xs) ''0'') \<le> size (Arr xs)" by (rule size_getKey_le)
  ultimately show "(getKey (Arr xs) ''0'', m) \<in> measure size" by simp
next
  fix m :: jsval and kvs subpath sub
  assume "m = Obj kvs" "subpath \<in> set (keysOf m)" "getKey m subpath = Obj sub"
  then show "(Obj sub, m) \<in> measure size" by (metis size_getKey_less in_measure)
next
  fix m :: jsval and xs submask ys
  assume "m = Arr xs" "submask \<in> set xs" "submask = Arr ys"
  then have "size (Arr ys) \<le> size_list size xs" by (simp add: size_list_estimation')
  moreover have "size (getKey (Arr ys) ''0'') \<le> size (Arr ys)" by (rule size_getKey_le)
  moreover assume "m = Arr xs"
  ultimately show "(getKey (Arr ys) ''0'', m) \<in> measure size" by simp
next
  fix m :: jsval and xs submask sub
  assume "m = Arr xs" "submask \<in> set xs" "submask = Obj sub"
  then have "size (Obj sub) \<le> size_list size xs" by (simp add: size_list_estimation')
  moreover assume "m = Arr xs"
  ultimately show "(Obj sub, m) \<in> measure size" by simp
qed

declare underscorizeArrays.simps [simp del]

text \<open>The class \<open>ObjectMask\<close>: one field, \<open>mask\<close> (here \<open>mask_tree\<close>). The constructor copies and canonicalises.\<close>

record ObjectMask =
  mask_tree :: jsval

definition newObjectMask :: "jsval \<Rightarrow> ObjectMask" where
  "newObjectMask m = \<lparr> mask_tree = underscorizeArrays (cloneDeep m) \<rparr>"

text \<open>An operand of a static operation: an \<open>ObjectMask\<close> or a raw tree.\<close>

datatype operand = IsObjectMask ObjectMask | RawTree jsval

fun toObject :: "operand \<Rightarrow> jsval" where
  "toObject (IsObjectMask m) = mask_tree m"
| "toObject (RawTree t) = t"


text \<open>
  \<open>validate()\<close> is \<open>valWhitelist(this.mask)\<close>: a scalar other than the two booleans
  invalidates the tree; every property of an object (or sequence) is checked in turn.
\<close>

function valWhitelist :: "jsval \<Rightarrow> bool" where
  "valWhitelist whitelist =
     (if whitelist \<noteq> JBool True \<and> whitelist \<noteq> JBool False \<and> isScalar whitelist then False
      else if typeofObject whitelist
        then list_all (\<lambda>key. valWhitelist (getKey whitelist key)) (keysOf whitelist)
      else True)"
  by pat_completeness auto
termination
  by (relation "measure size") (auto intro: size_getKey_less)

declare valWhitelist.simps [simp del]

definition validate :: "ObjectMask \<Rightarrow> bool" where
  "validate this = valWhitelist (mask_tree this)"

text \<open>
  A plain tree has primitives and objects only (no sequence node), and the keys of each
  object are distinct, as the keys of a JavaScript object are. The mask trees of the
  data model are the plain trees that \<open>valWhitelist\<close> accepts.
\<close>

fun plain :: "jsval \<Rightarrow> bool" where
  "plain (Arr xs) = False"
| "plain (Obj kvs) = (distinct (map fst kvs) \<and> list_all (\<lambda>(k, v). plain v) kvs)"
| "plain v = True"

subsection \<open>Path resolution\<close>

text \<open>\<open>path.split('.')\<close>: at least one segment, also for the empty string.\<close>

fun splitDot :: "string \<Rightarrow> string list" where
  "splitDot [] = [[]]"
| "splitDot (c # cs) =
     (if c = CHR ''.'' then [] # splitDot cs
      else (case splitDot cs of [] \<Rightarrow> [[c]] | s # ss \<Rightarrow> (c # s) # ss))"

text \<open>A path is \<open>pathFree\<close> when no segment of it is a name inherited from \<open>Object.prototype\<close>.\<close>

definition pathFree :: "string \<Rightarrow> bool" where
  "pathFree p = list_all (\<lambda>s. s \<notin> set protoNames) (splitDot p)"

text \<open>
  The loop of \<open>getSubMask\<close>: \<open>while (subpaths.length && !isScalar(mask))\<close> takes the next
  key and steps to \<open>key in mask ? mask[key] : mask._\<close>.
\<close>

fun getSubMaskLoop :: "jsval \<Rightarrow> string list \<Rightarrow> jsval" where
  "getSubMaskLoop m [] = m"
| "getSubMaskLoop m (key # subpaths) =
     (if isScalar m then m
      else getSubMaskLoop (if hasKey key m then getKey m key else getKey m ''_'') subpaths)"

definition getSubMask :: "ObjectMask \<Rightarrow> string \<Rightarrow> ObjectMask" where
  "getSubMask this path = newObjectMask (orFalse (getSubMaskLoop (mask_tree this) (splitDot path)))"

definition checkPath :: "ObjectMask \<Rightarrow> string \<Rightarrow> bool" where
  "checkPath this path = (mask_tree (getSubMask this path) = JBool True)"

subsection \<open>Mask addition\<close>

text \<open>
  \<open>addMask(resultMask, newMask)\<close>, in the order of the source: the three base cases;
  the loop over the keys of \<open>resultMask\<close> that \<open>newMask\<close> lacks (when \<open>newMask\<close> has a
  wildcard); the loop over the keys of \<open>newMask\<close>; the wildcard; the removal of the keys
  that \<open>deepEquals\<close> finds equal to the wildcard. Array nodes are read through their
  index properties; a node that was written to is returned as the object of its
  properties.
\<close>

function addMask :: "jsval \<Rightarrow> jsval \<Rightarrow> jsval" where
  "addMask resultMask newMask =
     (if resultMask = JBool True \<or> newMask = JBool True then JBool True
      else if isScalar newMask then resultMask
      else if isScalar resultMask then deepCopy newMask
      else
        let r1 = (if hasKey ''_'' newMask
                  then forInSet (keysOf resultMask) (\<lambda>key.
                         if key \<noteq> ''_'' \<and> \<not> hasKey key newMask
                         then Some (addMask (getKey resultMask key) (getKey newMask ''_''))
                         else None) (props resultMask)
                  else props resultMask);
            r2 = forInSet (keysOf newMask) (\<lambda>key.
                   if key \<noteq> ''_'' then
                     (if hasKey key resultMask
                        then Some (addMask (getKey resultMask key) (getKey newMask key))
                      else if hasKey ''_'' resultMask
                        then Some (addMask (deepCopy (getKey newMask key)) (getKey resultMask ''_''))
                      else Some (deepCopy (getKey newMask key)))
                   else None) r1;
            r3 = (if hasKey ''_'' newMask
                  then AList.update ''_''
                         (if hasKey ''_'' resultMask
                          then addMask (getKey resultMask ''_'') (getKey newMask ''_'')
                          else deepCopy (getKey newMask ''_'')) r2
                  else r2);
            r4 = (if hasProp ''_'' r3
                  then forInDelete (map fst r3) (\<lambda>key.
                         key \<noteq> ''_'' \<and> deepEquals (getProp r3 key) (getProp r3 ''_'')) r3
                  else r3)
        in orFalse (Obj r4))"
  by pat_completeness auto
termination
proof (relation "measure (\<lambda>(r, n). size r + size n)")
  show "wf (measure (\<lambda>(r, n). size r + size n))" by simp
next
  fix resultMask newMask :: jsval and x
  assume "x \<in> set (keysOf resultMask)"
  then show "((getKey resultMask x, getKey newMask ''_''), resultMask, newMask)
      \<in> measure (\<lambda>(r, n). size r + size n)"
    by (simp add: size_pair_left)
next
  fix resultMask newMask :: jsval and x
  assume "x \<in> set (keysOf newMask)"
  then show "((getKey resultMask x, getKey newMask x), resultMask, newMask)
      \<in> measure (\<lambda>(r, n). size r + size n)"
    by (simp add: size_pair_right)
next
  fix resultMask newMask :: jsval and x
  assume "x \<in> set (keysOf newMask)"
  then have "size (getKey newMask x) + size (getKey resultMask ''_'') < size newMask + size resultMask"
    by (rule size_pair_left)
  then show "((deepCopy (getKey newMask x), getKey resultMask ''_''), resultMask, newMask)
      \<in> measure (\<lambda>(r, n). size r + size n)"
    by simp
next
  fix resultMask newMask :: jsval
  assume "hasKey ''_'' newMask"
  then have "''_'' \<in> set (keysOf newMask)" by (simp add: hasKey_keysOf)
  then show "((getKey resultMask ''_'', getKey newMask ''_''), resultMask, newMask)
      \<in> measure (\<lambda>(r, n). size r + size n)"
    by (simp add: size_pair_right)
qed

declare addMask.simps [simp del]

text \<open>
  \<open>ObjectMask.addMasks(...masks)\<close>: the accumulator starts as \<open>false\<close>; the loop returns
  at once when it becomes \<open>true\<close>.
\<close>

fun addMasksLoop :: "jsval \<Rightarrow> operand list \<Rightarrow> ObjectMask" where
  "addMasksLoop resultMask [] = newObjectMask (orFalse resultMask)"
| "addMasksLoop resultMask (curArg # masks) =
     (let resultMask' = addMask resultMask (toObject curArg)
      in if resultMask' = JBool True then newObjectMask (JBool True)
         else addMasksLoop resultMask' masks)"

definition addMasks :: "operand list \<Rightarrow> ObjectMask" where
  "addMasks masks = addMasksLoop (JBool False) masks"


subsection \<open>Filtering\<close>

text \<open>
  \<open>filterDeep(obj, mask, path, maskedOutHook)\<close> returns the filtered value
  (\<open>undefined\<close> when the value is masked out) together with the paths the hook is
  called with, in call order. The loop \<open>for (key in obj)\<close> visits the properties of
  \<open>obj\<close>; a kept element of a sequence is pushed, a kept property of an object is
  stored under its key.
\<close>

function filterDeep :: "jsval \<Rightarrow> jsval \<Rightarrow> string \<Rightarrow> jsval \<times> string list" where
  "filterDeep obj m path =
     (if m = JBool True then (obj, [])
      else if truthy m \<and> \<not> isScalar obj \<and> \<not> isScalar m then
        (let rs = map (\<lambda>(key, child).
                    (key, filterDeep child
                            (orFalse (if hasKey key m then getKey m key else getKey m ''_''))
                            (if path \<noteq> [] then path @ ''.'' @ key else key)))
                  (props obj);
             kept = filter (\<lambda>(key, r). fst r \<noteq> Undefined) rs
         in (if isArray obj then Arr (map (\<lambda>(key, r). fst r) kept)
             else Obj (map (\<lambda>(key, r). (key, fst r)) kept),
             concat (map (\<lambda>(key, r). snd r) rs)))
      else (Undefined, [path]))"
  by pat_completeness auto
termination
  by (relation "measure (\<lambda>(obj, m, path). size obj)") (auto dest: size_props_less)

declare filterDeep.simps [simp del]

definition filterObject :: "ObjectMask \<Rightarrow> jsval \<Rightarrow> jsval" where
  "filterObject this obj = fst (filterDeep obj (mask_tree this) [])"

definition getMaskedOutFields :: "ObjectMask \<Rightarrow> jsval \<Rightarrow> string list" where
  "getMaskedOutFields this obj = snd (filterDeep obj (mask_tree this) [])"

definition checkFields :: "ObjectMask \<Rightarrow> jsval \<Rightarrow> bool" where
  "checkFields this obj = (length (getMaskedOutFields this obj) = 0)"


subsection \<open>Path assignment and field lists\<close>

text \<open>
  \<open>setPath(obj, path, value)\<close> walks the parts of the path; a part whose current value
  is scalar is first overwritten by \<open>{}\<close>; the last part receives the value. A scalar root
  has no property to write to (a \<open>TypeError\<close>); below the root every node the walk
  stands on is an object. The parts are read and written as own properties here. In the
  source a part that names a member of \<open>Object.prototype\<close> is read through the
  prototype, and the assignment to the part \<open>__proto__\<close> creates no property; the two
  agree on \<open>pathFree\<close> paths.
\<close>

fun setPathLoop :: "jsval \<Rightarrow> string list \<Rightarrow> jsval \<Rightarrow> jsval" where
  "setPathLoop cur [] v = cur"
| "setPathLoop cur [part] v = Obj (AList.update part v (props cur))"
| "setPathLoop cur (part # parts) v =
     (let next = (if isScalar (getKey cur part) then Obj [] else getKey cur part)
      in Obj (AList.update part (setPathLoop next parts v) (props cur)))"

definition setPath :: "jsval \<Rightarrow> string \<Rightarrow> jsval \<Rightarrow> error + jsval" where
  "setPath obj path v =
     (if isScalar obj then Inl TypeError else Inr (setPathLoop obj (splitDot path) v))"

text \<open>
  \<open>createMaskFromFieldList(fields)\<close>: the fields are sorted by length, long to short
  (\<open>Array.prototype.sort\<close> is stable), and set to \<open>true\<close> one after the other. The
  length of a string is its number of characters here.
\<close>

definition sortFields :: "string list \<Rightarrow> string list" where
  "sortFields flds = sort_key (\<lambda>f. - int (length f)) flds"

fun setFields :: "jsval \<Rightarrow> string list \<Rightarrow> error + jsval" where
  "setFields ret [] = Inr ret"
| "setFields ret (field # flds) =
     (case setPath ret field (JBool True) of
        Inl e \<Rightarrow> Inl e
      | Inr ret' \<Rightarrow> setFields ret' flds)"

definition createMaskFromFieldList :: "string list \<Rightarrow> error + ObjectMask" where
  "createMaskFromFieldList flds =
     (case setFields (Obj []) (sortFields flds) of
        Inl e \<Rightarrow> Inl e
      | Inr ret \<Rightarrow> Inr (newObjectMask ret))"

subsection \<open>Removing a field\<close>

text \<open>
  The loop of \<open>removeField\<close>, as a function of the node \<open>submask\<close> stands on and of the
  remaining \<open>subpaths\<close>; it returns that node after the in-place updates. \<open>shift()\<close> on
  an empty list gives \<open>undefined\<close>, which as a property key is the string
  \<open>undefined\<close>. The third branch writes to \<open>submask\<close>; when \<open>submask\<close> is a primitive
  (the boolean \<open>true\<close> copied from a wildcard, or the root \<open>true\<close>) the write raises a
  \<open>TypeError\<close>. \<open>chain\<close> is what the inner loop builds: one \<open>{ _: true }\<close> per remaining
  part, the last part set to \<open>false\<close>.
\<close>

fun chain :: "string list \<Rightarrow> jsval" where
  "chain [] = JBool False"
| "chain (part # parts) = Obj [(''_'', JBool True), (part, chain parts)]"

function removeFieldLoop :: "jsval \<Rightarrow> string list \<Rightarrow> error + jsval" where
  "removeFieldLoop submask subpaths =
     (if \<not> truthy submask then Inr submask
      else
        let nextSubpath = (case subpaths of [] \<Rightarrow> ''undefined'' | p # ps \<Rightarrow> p);
            rest = tl subpaths;
            nextSubmask = getKey submask nextSubpath
        in if typeofObject nextSubmask then
             (case removeFieldLoop nextSubmask rest of
                Inl e \<Rightarrow> Inl e
              | Inr sub \<Rightarrow> Inr (Obj (AList.update nextSubpath sub (props submask))))
           else if truthy (getKey submask ''_'') \<and> \<not> truthy nextSubmask then
             (case removeFieldLoop (cloneDeep (getKey submask ''_'')) rest of
                Inl e \<Rightarrow> Inl e
              | Inr sub \<Rightarrow> Inr (Obj (AList.update nextSubpath sub (props submask))))
           else if isScalar submask then Inl TypeError
           else Inr (Obj (AList.update nextSubpath (chain rest) (props submask))))"
  by pat_completeness auto
termination
proof (relation "measure (\<lambda>(submask, subpaths). size submask)")
  show "wf (measure (\<lambda>(submask, subpaths). size submask))" by simp
next
  fix submask :: jsval and subpaths x xa xb
  assume "x = (case subpaths of [] \<Rightarrow> ''undefined'' | p # ps \<Rightarrow> p)"
    and "xb = getKey submask x" and "typeofObject xb" and "\<not> \<not> truthy submask"
  show "((xb, xa), submask, subpaths) \<in> measure (\<lambda>(submask, subpaths). size submask)"
  proof (cases "hasKey x submask")
    case True
    then show ?thesis using \<open>xb = getKey submask x\<close> by (simp add: hasKey_keysOf size_getKey_less)
  next
    case False
    then have "xb = Undefined" using \<open>xb = getKey submask x\<close>
      by (simp add: hasKey_def getKey_def hasProp_def getProp_def)
    then show ?thesis using \<open>typeofObject xb\<close> by simp
  qed
next
  fix submask :: jsval and subpaths x xa xb
  assume "truthy (getKey submask ''_'') \<and> \<not> truthy xb"
  then have "hasKey ''_'' submask" by (auto simp: hasKey_def getKey_def hasProp_def getProp_def split: option.splits)
  then show "((cloneDeep (getKey submask ''_''), xa), submask, subpaths)
      \<in> measure (\<lambda>(submask, subpaths). size submask)"
    by (simp add: cloneDeep_def hasKey_keysOf size_getKey_less)
qed

declare removeFieldLoop.simps [simp del]

definition removeField :: "ObjectMask \<Rightarrow> string \<Rightarrow> error + ObjectMask" where
  "removeField this path =
     (if path = ''_'' \<or> drop (length path - 2) path = ''._'' then Inl InvalidOperation
      else (case setPath (Obj []) path (JBool True) of
              Inl e \<Rightarrow> Inl e
            | Inr probe \<Rightarrow>
                if checkFields this probe then
                  (case removeFieldLoop (mask_tree this) (splitDot path) of
                     Inl e \<Rightarrow> Inl e
                   | Inr m \<Rightarrow> Inr (this \<lparr> mask_tree := m \<rparr>))
                else Inr this))"


subsection \<open>Inversion, subtraction, intersection\<close>

text \<open>
  \<open>sanitizeFalsies(obj)\<close>: when the wildcard is falsy (or absent) it is deleted, and so
  is every key whose value is exactly \<open>false\<close>.
\<close>

definition sanitizeFalsies :: "jsval \<Rightarrow> jsval" where
  "sanitizeFalsies obj =
     (if \<not> truthy (getKey obj ''_'') then
        (let o1 = AList.delete ''_'' (props obj)
         in Obj (forInDelete (map fst o1) (\<lambda>key. getProp o1 key = JBool False) o1))
      else obj)"

function invert :: "jsval \<Rightarrow> jsval" where
  "invert m =
     (if isScalar m then JBool (\<not> truthy m)
      else
        let result = forInSet (keysOf m) (\<lambda>key. Some (invert (getKey m key))) []
        in if \<not> hasProp ''_'' result then Obj (AList.update ''_'' (JBool True) result)
           else if \<not> truthy (getProp result ''_'') then Obj (AList.delete ''_'' result)
           else Obj result)"
  by pat_completeness auto
termination
  by (relation "measure size") (auto intro: size_getKey_less)

declare invert.simps [simp del]

definition invertMask :: "operand \<Rightarrow> ObjectMask" where
  "invertMask m = newObjectMask (invert (toObject m))"

text \<open>
  External library (lodash): \<open>_.isEqual\<close>, deep equality of values; objects are equal
  when they have the same keys with equal values, whatever the order of the keys.
\<close>

function isEqual :: "jsval \<Rightarrow> jsval \<Rightarrow> bool" where
  "isEqual a b =
     (if isScalar a \<or> isScalar b then a = b
      else if isArray a \<noteq> isArray b then False
      else set (keysOf a) = set (keysOf b) \<and>
           list_all (\<lambda>k. isEqual (getKey a k) (getKey b k)) (keysOf a))"
  by pat_completeness auto
termination
  by (relation "measure (\<lambda>(a, b). size a)") (auto intro: size_getKey_less)

declare isEqual.simps [simp del]

text \<open>
  The loops of \<open>subtract\<close> can throw in the middle. \<open>forInSetE\<close> is \<open>forInSet\<close> with a
  body that may throw; \<open>forInPutE\<close> is the loop
  \<open>for (key in keys) target[key] = subtract(own[key], ...)\<close> on one target value: the
  right-hand side is evaluated first, then the write is attempted, and a write to a
  primitive target raises a \<open>TypeError\<close>. A call of \<open>subtract\<close> that gets past its base
  cases rewrites its first argument in place and returns it, so that after the
  assignment \<open>own[key]\<close> is the rewritten object as well (the same object as
  \<open>target[key]\<close>); \<open>inPlace\<close> says for which keys that is so.
\<close>

fun forInSetE :: "string list \<Rightarrow> (string \<Rightarrow> (error + jsval) option) \<Rightarrow> jsprops \<Rightarrow> error + jsprops" where
  "forInSetE [] f acc = Inr acc"
| "forInSetE (k # ks) f acc =
     (case f k of
        None \<Rightarrow> forInSetE ks f acc
      | Some (Inl e) \<Rightarrow> Inl e
      | Some (Inr v) \<Rightarrow> forInSetE ks f (AList.update k v acc))"

fun forInPutE :: "string list \<Rightarrow> (string \<Rightarrow> (error + jsval) option) \<Rightarrow> (string \<Rightarrow> bool)
    \<Rightarrow> jsprops \<Rightarrow> jsval \<Rightarrow> error + (jsprops \<times> jsval)" where
  "forInPutE [] f inPlace own target = Inr (own, target)"
| "forInPutE (k # ks) f inPlace own target =
     (case f k of
        None \<Rightarrow> forInPutE ks f inPlace own target
      | Some (Inl e) \<Rightarrow> Inl e
      | Some (Inr v) \<Rightarrow>
          if isScalar target then Inl TypeError
          else forInPutE ks f inPlace (if inPlace k then AList.update k v own else own)
                 (Obj (AList.update k v (props target))))"

lemma forInSetE_cong [fundef_cong]:
  "ks = ks' \<Longrightarrow> (\<And>k. k \<in> set ks' \<Longrightarrow> f k = f' k) \<Longrightarrow> acc = acc'
   \<Longrightarrow> forInSetE ks f acc = forInSetE ks' f' acc'"
  by (induction ks arbitrary: ks' acc acc') (auto split: option.splits sum.splits)

lemma forInPutE_cong [fundef_cong]:
  "ks = ks' \<Longrightarrow> (\<And>k. k \<in> set ks' \<Longrightarrow> f k = f' k) \<Longrightarrow> ip = ip' \<Longrightarrow> own = own' \<Longrightarrow> t = t'
   \<Longrightarrow> forInPutE ks f ip own t = forInPutE ks' f' ip' own' t'"
  by (induction ks arbitrary: ks' own own' t t') (auto split: option.splits sum.splits)

text \<open>
  \<open>subtract(a, b)\<close>: the five base cases, the throw, then the three loops and
  \<open>sanitizeFalsies\<close>. When both sides have a wildcard the second loop assigns to
  \<open>a._[key]\<close>, a property of the wildcard's value, while the call on the right-hand
  side rewrites \<open>a[key]\<close>. \<open>rewritesMinuend a b\<close>: the call \<open>subtract(a, b)\<close> gets past the
  base cases and the throw, so it works on the object \<open>a\<close> itself and returns it.
\<close>

definition rewritesMinuend :: "jsval \<Rightarrow> jsval \<Rightarrow> bool" where
  "rewritesMinuend a b \<longleftrightarrow> \<not> isScalar a \<and> \<not> isScalar b \<and> \<not> isEqual a b"

function subtract :: "jsval \<Rightarrow> jsval \<Rightarrow> error + jsval" where
  "subtract a b =
     (if a = JBool True then Inr (invert b)
      else if a = JBool False then Inr (JBool False)
      else if \<not> truthy a then Inr (invert b)
      else if \<not> truthy b then Inr a
      else if b = JBool True \<or> isEqual a b then Inr (JBool False)
      else if isScalar a \<or> isScalar b then Inl InvalidOperation
      else
        (case (if hasKey ''_'' b
               then forInSetE (keysOf a) (\<lambda>key.
                      if \<not> hasKey key b \<or> key = ''_''
                      then Some (subtract (getKey a key) (getKey b ''_''))
                      else None) (props a)
               else Inr (props a)) of
           Inl e \<Rightarrow> Inl e
         | Inr a1 \<Rightarrow>
           (case (if hasKey ''_'' a \<and> hasKey ''_'' b
                  then (case forInPutE (keysOf b) (\<lambda>key.
                               if key \<noteq> ''_''
                               then Some (subtract (getKey a key) (getKey b key))
                               else None)
                             (\<lambda>key. rewritesMinuend (getKey a key) (getKey b key))
                             a1 (getProp a1 ''_'') of
                          Inl e \<Rightarrow> Inl e
                        | Inr (a1', w) \<Rightarrow> Inr (AList.update ''_'' w a1'))
                  else forInSetE (keysOf b) (\<lambda>key.
                         Some (subtract (getKey a key) (getKey b key))) a1) of
              Inl e \<Rightarrow> Inl e
            | Inr a2 \<Rightarrow> Inr (sanitizeFalsies (Obj a2)))))"
  by pat_completeness auto
termination
  by (relation "measure (\<lambda>(a, b). size b)") (auto simp: hasKey_keysOf intro: size_getKey_less)

declare subtract.simps [simp del]

definition subtractMask :: "ObjectMask \<Rightarrow> operand \<Rightarrow> error + ObjectMask" where
  "subtractMask this m =
     (case subtract (mask_tree this) (toObject m) of
        Inl e \<Rightarrow> Inl e
      | Inr t \<Rightarrow> Inr (this \<lparr> mask_tree := t \<rparr>))"

definition clone :: "ObjectMask \<Rightarrow> ObjectMask" where
  "clone this = newObjectMask (deepCopy (mask_tree this))"

definition subtractMasks :: "operand \<Rightarrow> operand \<Rightarrow> error + ObjectMask" where
  "subtractMasks minuend sub =
     (let m = (case minuend of IsObjectMask om \<Rightarrow> toObject (IsObjectMask (clone om))
                         | RawTree t \<Rightarrow> deepCopy t)
      in subtractMask (newObjectMask m) sub)"

function andMask :: "jsval \<Rightarrow> jsval \<Rightarrow> jsval" where
  "andMask resultMask newMask =
     (if resultMask = JBool True then deepCopy newMask
      else if newMask = JBool True then resultMask
      else if isScalar resultMask \<or> isScalar newMask then JBool False
      else
        let r1 = forInSet (keysOf newMask) (\<lambda>key.
                   if key \<noteq> ''_'' \<and> hasKey key resultMask
                   then Some (andMask (getKey resultMask key) (getKey newMask key))
                   else None) (props resultMask);
            r2 = forInSet (keysOf resultMask) (\<lambda>key.
                   if key \<noteq> ''_'' \<and> \<not> hasKey key newMask
                   then Some (if hasKey ''_'' newMask
                              then andMask (getKey resultMask key) (getKey newMask ''_'')
                              else JBool False)
                   else None) r1;
            r3 = forInSet (keysOf newMask) (\<lambda>key.
                   if key \<noteq> ''_'' \<and> \<not> hasKey key resultMask
                   then Some (if hasKey ''_'' resultMask
                              then andMask (deepCopy (getKey newMask key)) (getKey resultMask ''_'')
                              else JBool False)
                   else None) r2;
            r4 = (if hasKey ''_'' newMask \<and> hasKey ''_'' resultMask
                  then AList.update ''_'' (andMask (getKey resultMask ''_'') (getKey newMask ''_'')) r3
                  else AList.delete ''_'' r3);
            r5 = sanitizeFalsies (Obj r4)
        in if length (keysOf r5) \<noteq> 0 then r5 else JBool False)"
  by pat_completeness auto
termination
proof (relation "measure (\<lambda>(r, n). size r + size n)")
  show "wf (measure (\<lambda>(r, n). size r + size n))" by simp
next
  fix resultMask newMask :: jsval and x
  assume "x \<in> set (keysOf newMask)"
  then show "((getKey resultMask x, getKey newMask x), resultMask, newMask)
      \<in> measure (\<lambda>(r, n). size r + size n)"
    by (simp add: size_pair_right)
next
  fix resultMask newMask :: jsval and x
  assume "x \<in> set (keysOf resultMask)"
  then show "((getKey resultMask x, getKey newMask ''_''), resultMask, newMask)
      \<in> measure (\<lambda>(r, n). size r + size n)"
    by (simp add: size_pair_left)
next
  fix resultMask newMask :: jsval and x
  assume "x \<in> set (keysOf newMask)"
  then have "size (getKey newMask x) + size (getKey resultMask ''_'') < size newMask + size resultMask"
    by (rule size_pair_left)
  then show "((deepCopy (getKey newMask x), getKey resultMask ''_''), resultMask, newMask)
      \<in> measure (\<lambda>(r, n). size r + size n)"
    by simp
next
  fix resultMask newMask :: jsval
  assume "hasKey ''_'' newMask \<and> hasKey ''_'' resultMask"
  then have "''_'' \<in> set (keysOf newMask)" by (simp add: hasKey_keysOf)
  then show "((getKey resultMask ''_'', getKey newMask ''_''), resultMask, newMask)
      \<in> measure (\<lambda>(r, n). size r + size n)"
    by (simp add: size_pair_right)
qed

declare andMask.simps [simp del]

fun andMasksLoop :: "jsval \<Rightarrow> operand list \<Rightarrow> ObjectMask" where
  "andMasksLoop resultMask [] = newObjectMask (orFalse resultMask)"
| "andMasksLoop resultMask (curArg # masks) =
     (let resultMask' = andMask resultMask (toObject curArg)
      in if resultMask' = JBool False then newObjectMask (JBool False)
         else andMasksLoop resultMask' masks)"

definition andMasks :: "operand list \<Rightarrow> ObjectMask" where
  "andMasks masks = andMasksLoop (JBool True) masks"

subsection \<open>Dotted form\<close>

text \<open>
  \<open>collapseToDotted(obj, includeRedundantLevels, stopAtArrays)\<close>: the inner function
  \<open>addObj\<close> stores every scalar under its dotted path in the shared \<open>result\<close>, which is
  passed along here.
\<close>

function addObj :: "jsval \<Rightarrow> string \<Rightarrow> bool \<Rightarrow> bool \<Rightarrow> jsprops \<Rightarrow> jsprops" where
  "addObj obj path includeRedundantLevels stopAtArrays result =
     (if isScalar obj \<or> (isArray obj \<and> stopAtArrays) then AList.update path obj result
      else
        let result1 = (if includeRedundantLevels then AList.update path obj result else result)
        in fold (\<lambda>(key, child) res.
                   addObj child (if path \<noteq> [] then path @ ''.'' @ key else key)
                     includeRedundantLevels stopAtArrays res)
             (props obj) result1)"
  by pat_completeness auto
termination
  by (relation "measure (\<lambda>(obj, path, i, s, r). size obj)") (auto dest: size_props_less)

declare addObj.simps [simp del]

definition collapseToDotted :: "jsval \<Rightarrow> bool \<Rightarrow> bool \<Rightarrow> jsval" where
  "collapseToDotted obj includeRedundantLevels stopAtArrays =
     (if isScalar obj then Obj []
      else Obj (AList.delete [] (addObj obj [] includeRedundantLevels stopAtArrays [])))"

text \<open>
  \<open>filterDottedObject(dottedObj, maskedOutHook)\<close>: the kept entries, and the keys the
  hook is called with.
\<close>

definition filterDottedObject :: "ObjectMask \<Rightarrow> jsval \<Rightarrow> jsval \<times> string list" where
  "filterDottedObject this dottedObj =
     (Obj (filter (\<lambda>(key, v). checkPath this key) (props dottedObj)),
      filter (\<lambda>key. \<not> checkPath this key) (keysOf dottedObj))"

definition getDottedMaskedOutFields :: "ObjectMask \<Rightarrow> jsval \<Rightarrow> string list" where
  "getDottedMaskedOutFields this obj = snd (filterDottedObject this obj)"

text \<open>\<open>getPath(obj, path)\<close> (with \<open>allowSkipArrays\<close> left at its default, false).\<close>

fun getPathLoop :: "jsval \<Rightarrow> string list \<Rightarrow> jsval" where
  "getPathLoop cur [] = cur"
| "getPathLoop cur (part # parts) =
     (if isScalar cur then Undefined else getPathLoop (getKey cur part) parts)"

definition getPath :: "jsval \<Rightarrow> string \<Rightarrow> jsval" where
  "getPath obj path = getPathLoop obj (splitDot path)"

section \<open>Facts about the loops and the constructor\<close>

lemma map_of_forInSet:
  "map_of (forInSet ks f acc) x =
     (if x \<in> set ks then (case f x of Some v \<Rightarrow> Some v | None \<Rightarrow> map_of acc x)
      else map_of acc x)"
  by (induction ks arbitrary: acc) (auto simp: update_conv' split: option.splits)

lemma forInSet_noop:
  "(\<And>k. k \<in> set ks \<Longrightarrow> f k = None \<or> (\<exists>v. f k = Some v \<and> map_of acc k = Some v))
   \<Longrightarrow> forInSet ks f acc = acc"
proof (induction ks arbitrary: acc)
  case Nil
  then show ?case by simp
next
  case (Cons k ks)
  have "(case f k of None \<Rightarrow> acc | Some v \<Rightarrow> AList.update k v acc) = acc"
    using Cons.prems [of k] by (auto simp: update_triv)
  then show ?case using Cons by simp
qed

lemma plain_getKey: "plain m \<Longrightarrow> plain (getKey m k)"
  by (cases m) (auto simp: getKey_def getProp_def list_all_iff split: option.splits dest!: map_of_SomeD)

lemma underscorizeArrays_plain: "plain m \<Longrightarrow> underscorizeArrays m = m"
proof (induction m rule: underscorizeArrays.induct)
  case (1 m)
  show ?case
  proof (cases m)
    case (Obj kvs)
    have "forInSet (keysOf m) (\<lambda>subpath.
          (case getKey m subpath of
             Arr xs \<Rightarrow> Some (Obj [(''_'', underscorizeArrays (getKey (Arr xs) ''0''))])
           | Obj sub \<Rightarrow> Some (underscorizeArrays (Obj sub))
           | _ \<Rightarrow> None)) kvs = kvs"
    proof (rule forInSet_noop)
      fix k assume k: "k \<in> set (keysOf m)"
      have pk: "plain (getKey m k)" using "1.prems" by (rule plain_getKey)
      show "(case getKey m k of
             Arr xs \<Rightarrow> Some (Obj [(''_'', underscorizeArrays (getKey (Arr xs) ''0''))])
           | Obj sub \<Rightarrow> Some (underscorizeArrays (Obj sub))
           | _ \<Rightarrow> None) = None \<or> (\<exists>v. (case getKey m k of
             Arr xs \<Rightarrow> Some (Obj [(''_'', underscorizeArrays (getKey (Arr xs) ''0''))])
           | Obj sub \<Rightarrow> Some (underscorizeArrays (Obj sub))
           | _ \<Rightarrow> None) = Some v \<and> map_of kvs k = Some v)"
      proof (cases "getKey m k")
        case (Obj sub)
        then have "underscorizeArrays (Obj sub) = Obj sub"
          using "1.IH" \<open>m = Obj kvs\<close> k pk by auto
        moreover have "map_of kvs k = Some (Obj sub)"
          using Obj \<open>m = Obj kvs\<close> by (auto simp: getKey_def getProp_def split: option.splits)
        ultimately show ?thesis using Obj by simp
      next
        case (Arr xs)
        then show ?thesis using pk by simp
      qed auto
    qed
    then show ?thesis using Obj by (subst underscorizeArrays.simps) simp
  next
    case (Arr xs)
    then show ?thesis using "1.prems" by simp
  qed (simp_all add: underscorizeArrays.simps)
qed

lemma newObjectMask_plain: "plain m \<Longrightarrow> mask_tree (newObjectMask m) = m"
  by (simp add: newObjectMask_def cloneDeep_def underscorizeArrays_plain)


lemma map_of_forInDelete:
  "map_of (forInDelete ks c acc) x = (if x \<in> set ks \<and> c x then None else map_of acc x)"
  by (induction ks arbitrary: acc) (auto simp: delete_conv')

text \<open>Evaluation rules for \<open>addMask\<close>, one per branch of its case distinction.\<close>

lemma addMask_True1: "addMask (JBool True) n = JBool True"
  by (simp add: addMask.simps)

lemma addMask_True2: "addMask r (JBool True) = JBool True"
  by (simp add: addMask.simps)

lemma addMask_scalar_new:
  "isScalar n \<Longrightarrow> n \<noteq> JBool True \<Longrightarrow> r \<noteq> JBool True \<Longrightarrow> addMask r n = r"
  by (simp add: addMask.simps)

lemma addMask_scalar_res:
  "isScalar r \<Longrightarrow> r \<noteq> JBool True \<Longrightarrow> \<not> isScalar n \<Longrightarrow> addMask r n = n"
  by (simp add: addMask.simps)

lemmas addMask_Obj_Obj =
  addMask.simps [where resultMask = "Obj rk" and newMask = "Obj nk" for rk nk]

lemmas key_eval = hasKey_def getKey_def hasProp_def getProp_def keysOf_def orFalse_def

lemmas addMask_eval = addMask_True1 addMask_True2 addMask_scalar_new addMask_scalar_res
  addMask_Obj_Obj deepEquals.simps scalarEquals_def

lemmas checkPath_eval = checkPath_def getSubMask_def newObjectMask_plain

section \<open>Mask addition: the documented scenario and the union reading\<close>

text \<open>
  After the merge of two non-scalar masks no concrete key is left whose sub-mask
  \<open>deepEquals\<close> finds equal to the wildcard's: the last loop of \<open>addMask\<close> deletes them.
\<close>

lemma addMask_no_redundant_key:
  assumes "\<not> isScalar r" "\<not> isScalar n" "k \<noteq> ''_''"
    and "hasKey k (addMask r n)" "hasKey ''_'' (addMask r n)"
  shows "\<not> deepEquals (getKey (addMask r n) k) (getKey (addMask r n) ''_'')"
proof -
  have rn: "r \<noteq> JBool True" "n \<noteq> JBool True" using assms(1,2) by auto
  have "\<exists>r3. addMask r n = Obj (if hasProp ''_'' r3
                  then forInDelete (map fst r3) (\<lambda>key.
                         key \<noteq> ''_'' \<and> deepEquals (getProp r3 key) (getProp r3 ''_'')) r3
                  else r3)"
    unfolding addMask.simps [of r n] Let_def orFalse_def
    by (simp only: rn assms if_False HOL.simp_thms truthy.simps if_True) (rule exI, rule refl)
  then obtain r3 where res: "addMask r n = Obj (if hasProp ''_'' r3
                  then forInDelete (map fst r3) (\<lambda>key.
                         key \<noteq> ''_'' \<and> deepEquals (getProp r3 key) (getProp r3 ''_'')) r3
                  else r3)" ..
  show ?thesis
  proof (cases "hasProp ''_'' r3")
    case True
    let ?c = "\<lambda>key. key \<noteq> ''_'' \<and> deepEquals (getProp r3 key) (getProp r3 ''_'')"
    let ?r4 = "forInDelete (map fst r3) ?c r3"
    have r4: "addMask r n = Obj ?r4" using res True by simp
    have look: "\<And>x. map_of ?r4 x = (if x \<in> set (map fst r3) \<and> ?c x then None else map_of r3 x)"
      by (rule map_of_forInDelete)
    from assms(4) r4 have "map_of ?r4 k \<noteq> None" by (simp add: hasKey_def hasProp_def)
    with look [of k] have nk: "\<not> (k \<in> set (map fst r3) \<and> ?c k)" and k3: "map_of r3 k \<noteq> None"
      by (auto split: if_splits)
    from k3 have "k \<in> set (map fst r3)" by (simp add: map_of_eq_None_iff)
    with nk assms(3) have ne: "\<not> deepEquals (getProp r3 k) (getProp r3 ''_'')" by simp
    have "map_of ?r4 k = map_of r3 k" using look [of k] nk by presburger
    then have "getProp ?r4 k = getProp r3 k" by (simp add: getProp_def)
    moreover have "getProp ?r4 ''_'' = getProp r3 ''_''" using look [of "''_''"] by (simp add: getProp_def)
    ultimately show ?thesis using ne r4 by (simp add: getKey_def)
  next
    case False
    then show ?thesis using res assms(5) by (simp add: hasKey_def)
  qed
qed

text \<open>
  C3. \<open>ObjectMask.addMasks\<close> applied to the masks
  \<open>{str1:true, obj:{foo:true, bar:true}}\<close> and \<open>{str1:true, obj:{_:true, foo:false}}\<close>
  returns the mask whose tree is exactly \<open>{str1:true, obj:{_:true}}\<close>: under \<open>obj\<close>
  the keys \<open>foo\<close> and \<open>bar\<close> both become \<open>true\<close>, equal to the wildcard, and are deleted
  (the general fact is \<open>addMask_no_redundant_key\<close>).
\<close>

theorem addMasks_scenario:
  "addMasks
     [IsObjectMask (newObjectMask
        (Obj [(''str1'', JBool True),
              (''obj'', Obj [(''foo'', JBool True), (''bar'', JBool True)])])),
      IsObjectMask (newObjectMask
        (Obj [(''str1'', JBool True),
              (''obj'', Obj [(''_'', JBool True), (''foo'', JBool False)])]))]
   = \<lparr> mask_tree = Obj [(''str1'', JBool True), (''obj'', Obj [(''_'', JBool True)])] \<rparr>"
  by (simp add: addMasks_def newObjectMask_plain addMask_eval key_eval)

text \<open>
  C1. The union reading of \<open>addMasks\<close> fails on the code. Both operands below pass
  \<open>validate()\<close>; neither allows the path \<open>a.b\<close>; their sum allows it. The last loop of
  \<open>addMask\<close> asks \<open>deepEquals\<close> whether the empty object under \<open>a\<close> equals the
  wildcard \<open>true\<close>; \<open>deepEquals\<close> compares the two key by key, finds no key on either
  side, and answers yes, so the key \<open>a\<close> is deleted and \<open>a.b\<close> falls to the wildcard.
\<close>

theorem addMasks_union_failing_input:
  "validate (newObjectMask (Obj [(''_'', JBool True), (''a'', Obj [])])) \<and>
   validate (newObjectMask (Obj [])) \<and>
   \<not> checkPath (newObjectMask (Obj [(''_'', JBool True), (''a'', Obj [])])) ''a.b'' \<and>
   \<not> checkPath (newObjectMask (Obj [])) ''a.b'' \<and>
   checkPath (addMasks
      [IsObjectMask (newObjectMask (Obj [(''_'', JBool True), (''a'', Obj [])])),
       IsObjectMask (newObjectMask (Obj []))]) ''a.b'' \<and>
   mask_tree (addMasks
      [IsObjectMask (newObjectMask (Obj [(''_'', JBool True), (''a'', Obj [])])),
       IsObjectMask (newObjectMask (Obj []))]) = Obj [(''_'', JBool True)]"
  by (simp add: addMasks_def validate_def valWhitelist.simps checkPath_eval addMask_eval key_eval)


section \<open>Removing a field\<close>

lemma removeFieldLoop_not_InvalidOperation:
  "removeFieldLoop submask subpaths \<noteq> Inl InvalidOperation"
proof (induction submask subpaths rule: removeFieldLoop.induct)
  case (1 submask subpaths)
  define np where "np = (case subpaths of [] \<Rightarrow> ''undefined'' | p # ps \<Rightarrow> p)"
  have ih1: "removeFieldLoop (getKey submask np) (tl subpaths) \<noteq> Inl InvalidOperation"
    if "truthy submask" "typeofObject (getKey submask np)"
    using "1.IH"(1) [OF _ np_def refl refl] that by simp
  have ih2: "removeFieldLoop (cloneDeep (getKey submask ''_'')) (tl subpaths) \<noteq> Inl InvalidOperation"
    if "truthy submask" "\<not> typeofObject (getKey submask np)"
       "truthy (getKey submask ''_'') \<and> \<not> truthy (getKey submask np)"
    using "1.IH"(2) [OF _ np_def refl refl] that by simp
  show ?case
    using ih1 ih2
    by (subst removeFieldLoop.simps) (auto simp: Let_def np_def [symmetric] split: sum.splits)
qed

lemma removeField_InvalidOperation_iff:
  "removeField this path = Inl InvalidOperation \<longleftrightarrow>
     (path = ''_'' \<or> drop (length path - 2) path = ''._'')"
  using removeFieldLoop_not_InvalidOperation [of "mask_tree this" "splitDot path"]
  by (auto simp: removeField_def setPath_def split: sum.splits)

text \<open>
  C7. \<open>removeField\<close> raises the error of its \<open>throw\<close> exactly for the path \<open>_\<close> and
  the paths ending in \<open>._\<close> (\<open>removeField_InvalidOperation_iff\<close>), but it does not
  complete on every other path of a valid mask. On the mask \<open>{_: true}\<close>, which allows
  \<open>foo\<close> through the wildcard only, \<open>removeField('foo')\<close> copies the wildcard's
  \<open>true\<close> to \<open>foo\<close>, makes that boolean the current node and then assigns a property
  of it: a \<open>TypeError\<close>. The same happens on the mask \<open>true\<close>.
\<close>

theorem removeField_failing_input:
  "validate (newObjectMask (Obj [(''_'', JBool True)])) \<and>
   checkPath (newObjectMask (Obj [(''_'', JBool True)])) ''foo'' \<and>
   removeField (newObjectMask (Obj [(''_'', JBool True)])) ''foo'' = Inl TypeError \<and>
   validate (newObjectMask (JBool True)) \<and>
   removeField (newObjectMask (JBool True)) ''foo'' = Inl TypeError"
  by (simp add: validate_def valWhitelist.simps checkPath_eval removeField_def setPath_def
      checkFields_def getMaskedOutFields_def filterDeep.simps removeFieldLoop.simps
      key_eval cloneDeep_def)


section \<open>Field lists\<close>

text \<open>Trees built from \<open>{}\<close> and \<open>true\<close> only, and their explicit \<open>true\<close> leaves.\<close>

fun ttree :: "jsval \<Rightarrow> bool" where
  "ttree (JBool b) = b"
| "ttree (Obj kvs) = (distinct (map fst kvs) \<and> list_all (\<lambda>(k, v). ttree v) kvs)"
| "ttree v = False"

fun leafAt :: "jsval \<Rightarrow> string list \<Rightarrow> bool" where
  "leafAt m [] = (m = JBool True)"
| "leafAt m (k # ks) = (\<not> isScalar m \<and> hasKey k m \<and> leafAt (getKey m k) ks)"

lemma splitDot_nonempty [simp]: "splitDot p \<noteq> []"
  by (induction p) (auto split: list.splits)

lemma splitDot_length:
  "sum_list (map (\<lambda>s. Suc (length s)) (splitDot a)) = Suc (length a)"
  by (induction a) (auto split: list.splits)

lemma strict_prefix_splitDot_length:
  assumes "strict_prefix (splitDot a) (splitDot b)"
  shows "length a < length b"
proof -
  from assms obtain z zs where "splitDot b = splitDot a @ z # zs"
    by (auto simp: strict_prefix_def prefix_def) (metis list.exhaust append_Nil2)
  then have "sum_list (map (\<lambda>s. Suc (length s)) (splitDot b))
      = sum_list (map (\<lambda>s. Suc (length s)) (splitDot a)) + Suc (length z)
        + sum_list (map (\<lambda>s. Suc (length s)) zs)"
    by simp
  then show ?thesis by (simp add: splitDot_length)
qed

lemma hasKey_Obj_update [simp]:
  "hasKey k (Obj (AList.update p v kvs)) \<longleftrightarrow> k = p \<or> hasKey k (Obj kvs)"
  by (simp add: hasKey_def hasProp_def update_conv')

lemma getKey_Obj_update [simp]:
  "getKey (Obj (AList.update p v kvs)) k = (if k = p then v else getKey (Obj kvs) k)"
  by (simp add: getKey_def getProp_def update_conv')

lemma hasKey_Obj_Nil [simp]: "\<not> hasKey k (Obj [])"
  by (simp add: hasKey_def hasProp_def)

lemma getKey_absent: "\<not> hasKey k m \<Longrightarrow> getKey m k = Undefined"
  by (simp add: key_eval)

lemma ttree_cases: "ttree m \<Longrightarrow> m = JBool True \<or> (\<exists>kvs. m = Obj kvs)"
  by (cases m) auto

lemma ttree_getKey: "ttree m \<Longrightarrow> hasKey k m \<Longrightarrow> ttree (getKey m k)"
  by (cases m) (auto simp: key_eval list_all_iff split: option.splits dest!: map_of_SomeD)

lemma set_update_cases:
  "(a, b) \<in> set (AList.update p v kvs) \<Longrightarrow> (a, b) = (p, v) \<or> (a, b) \<in> set kvs"
  by (induction kvs) (auto split: if_splits)

lemma ttree_update: "ttree (Obj kvs) \<Longrightarrow> ttree v \<Longrightarrow> ttree (Obj (AList.update p v kvs))"
  by (auto simp: distinct_update list_all_iff dest!: set_update_cases)

lemma nonscalar_hasKey: "\<not> isScalar (getKey m k) \<Longrightarrow> hasKey k m"
  by (rule ccontr) (simp add: getKey_absent)

lemma ttree_plain: "ttree m \<Longrightarrow> plain m"
  by (induction m rule: ttree.induct) (auto simp: list_all_iff)

lemma leafAt_True [simp]: "leafAt (JBool True) r \<longleftrightarrow> r = []"
  by (cases r) auto

lemma leafAt_empty [simp]: "\<not> leafAt (Obj []) r"
  by (cases r) auto

lemma ttree_setPathLoop:
  "ttree m \<Longrightarrow> \<not> isScalar m \<Longrightarrow> q \<noteq> [] \<Longrightarrow>
   ttree (setPathLoop m q (JBool True)) \<and> \<not> isScalar (setPathLoop m q (JBool True))"
proof (induction m q "JBool True" rule: setPathLoop.induct)
  case (1 cur)
  then show ?case by simp
next
  case (2 cur part)
  then obtain kvs where "cur = Obj kvs" by (auto dest: ttree_cases)
  with 2 show ?case using ttree_update [of kvs "JBool True" part] by simp
next
  case (3 cur part v va)
  then obtain kvs where cur: "cur = Obj kvs" by (auto dest: ttree_cases)
  define nxt where "nxt = (if isScalar (getKey cur part) then Obj [] else getKey cur part)"
  have "hasKey part cur" if "\<not> isScalar (getKey cur part)"
    using that by (rule nonscalar_hasKey)
  then have "ttree nxt" "\<not> isScalar nxt"
    using "3.prems"(1) by (auto simp: nxt_def ttree_getKey)
  then have "ttree (setPathLoop nxt (v # va) (JBool True))"
    using "3.hyps" [OF nxt_def] by simp
  moreover have "setPathLoop cur (part # v # va) (JBool True)
      = Obj (AList.update part (setPathLoop nxt (v # va) (JBool True)) kvs)"
    by (simp add: nxt_def cur Let_def)
  moreover have "ttree (Obj kvs)" using cur "3.prems"(1) by simp
  ultimately show ?case
    using ttree_update [of kvs "setPathLoop nxt (v # va) (JBool True)" part] by simp
qed

lemma leafAt_setPathLoop:
  "ttree m \<Longrightarrow> \<not> isScalar m \<Longrightarrow> q \<noteq> [] \<Longrightarrow> (\<And>r. strict_prefix r q \<Longrightarrow> \<not> leafAt m r) \<Longrightarrow>
   leafAt (setPathLoop m q (JBool True)) r \<longleftrightarrow> (r = q \<or> (leafAt m r \<and> \<not> prefix q r))"
proof (induction m q "JBool True" arbitrary: r rule: setPathLoop.induct)
  case (1 cur)
  then show ?case by simp
next
  case (2 cur part)
  then obtain kvs where "cur = Obj kvs" by (auto dest: ttree_cases)
  then show ?case by (cases r) auto
next
  case (3 cur part v va)
  then obtain kvs where cur: "cur = Obj kvs" by (auto dest: ttree_cases)
  define nxt where "nxt = (if isScalar (getKey cur part) then Obj [] else getKey cur part)"
  have absent: "hasKey part cur" if "\<not> isScalar (getKey cur part)"
    using that by (rule nonscalar_hasKey)
  have tn: "ttree nxt" "\<not> isScalar nxt"
    using "3.prems"(1) absent by (auto simp: nxt_def ttree_getKey)
  have noleaf: "\<not> leafAt cur [part]"
    using "3.prems"(4) [of "[part]"] by (simp add: strict_prefix_def)
  have scalar_absent: "\<not> hasKey part cur" if "isScalar (getKey cur part)"
  proof
    assume h: "hasKey part cur"
    then have "ttree (getKey cur part)" using "3.prems"(1) by (rule ttree_getKey [rotated])
    with that have "getKey cur part = JBool True" by (auto dest: ttree_cases)
    with h noleaf cur show False by simp
  qed
  have nxt_leaf: "leafAt nxt ks \<longleftrightarrow> leafAt cur (part # ks)" for ks
    using scalar_absent absent cur by (auto simp: nxt_def)
  have H: "\<not> leafAt nxt r'" if "strict_prefix r' (v # va)" for r'
    using "3.prems"(4) [of "part # r'"] that nxt_leaf by simp
  have IH: "leafAt (setPathLoop nxt (v # va) (JBool True)) ks \<longleftrightarrow>
      (ks = v # va \<or> (leafAt nxt ks \<and> \<not> prefix (v # va) ks))" for ks
    using "3.hyps" [OF nxt_def tn _ H] by simp
  have eq: "setPathLoop cur (part # v # va) (JBool True)
      = Obj (AList.update part (setPathLoop nxt (v # va) (JBool True)) kvs)"
    by (simp add: nxt_def cur Let_def)
  show ?case
  proof (cases r)
    case Nil
    then show ?thesis using cur by simp
  next
    case (Cons k ks)
    show ?thesis
    proof (cases "k = part")
      case True
      have "leafAt (setPathLoop cur (part # v # va) (JBool True)) (part # ks)
          \<longleftrightarrow> leafAt (setPathLoop nxt (v # va) (JBool True)) ks"
        unfolding eq by simp
      also have "\<dots> \<longleftrightarrow> (ks = v # va \<or> (leafAt cur (part # ks) \<and> \<not> prefix (v # va) ks))"
        using IH [of ks] nxt_leaf [of ks] by simp
      finally show ?thesis using Cons True by simp
    next
      case False
      have "leafAt (setPathLoop cur (part # v # va) (JBool True)) (k # ks)
          \<longleftrightarrow> leafAt cur (k # ks)"
        unfolding eq using False cur by simp
      then show ?thesis using Cons False by simp
    qed
  qed
qed


lemma getSubMaskLoop_scalar: "isScalar m \<Longrightarrow> getSubMaskLoop m ps = m"
  by (cases ps) auto

lemma leafAt_getSubMaskLoop:
  "leafAt m r \<Longrightarrow> prefix r ps \<Longrightarrow> r \<noteq> [] \<Longrightarrow> getSubMaskLoop m ps = JBool True"
proof (induction r arbitrary: m ps)
  case Nil
  then show ?case by simp
next
  case (Cons k ks)
  from Cons.prems(2) obtain ps' where ps: "ps = k # ps'" "prefix ks ps'" by (cases ps) auto
  show ?case
  proof (cases "ks = []")
    case True
    then show ?thesis using Cons.prems(1) ps by (simp add: getSubMaskLoop_scalar)
  next
    case False
    then show ?thesis using Cons.IH [of "getKey m k" ps'] Cons.prems(1) ps by simp
  qed
qed

lemma leafAt_getPathLoop: "leafAt m r \<Longrightarrow> getPathLoop m r = JBool True"
  by (induction r arbitrary: m) auto

definition fieldInv :: "jsval \<Rightarrow> string set \<Rightarrow> bool" where
  "fieldInv ret S \<longleftrightarrow>
     ttree ret \<and> \<not> isScalar ret \<and>
     (\<forall>r. leafAt ret r \<longrightarrow> r \<in> splitDot ` S) \<and>
     (\<forall>s\<in>S. \<exists>r. prefix r (splitDot s) \<and> leafAt ret r)"

lemma fieldInv_step:
  assumes inv: "fieldInv ret S" and len: "\<And>a. a \<in> S \<Longrightarrow> length q \<le> length a"
  shows "fieldInv (setPathLoop ret (splitDot q) (JBool True)) (insert q S)"
proof -
  let ?ret' = "setPathLoop ret (splitDot q) (JBool True)"
  have tt: "ttree ret" "\<not> isScalar ret" using inv by (auto simp: fieldInv_def)
  have H: "\<not> leafAt ret r" if "strict_prefix r (splitDot q)" for r
  proof
    assume "leafAt ret r"
    then obtain a where a: "a \<in> S" "r = splitDot a" using inv by (auto simp: fieldInv_def)
    with that have "length a < length q" by (simp add: strict_prefix_splitDot_length)
    with len [OF a(1)] show False by simp
  qed
  have leaves: "leafAt ?ret' r \<longleftrightarrow> (r = splitDot q \<or> (leafAt ret r \<and> \<not> prefix (splitDot q) r))" for r
    using leafAt_setPathLoop [OF tt splitDot_nonempty H] by blast
  have "ttree ?ret'" "\<not> isScalar ?ret'"
    using ttree_setPathLoop [OF tt splitDot_nonempty] by auto
  moreover have "\<forall>r. leafAt ?ret' r \<longrightarrow> r \<in> splitDot ` insert q S"
    using leaves inv by (auto simp: fieldInv_def)
  moreover have "\<exists>r. prefix r (splitDot s) \<and> leafAt ?ret' r" if "s \<in> insert q S" for s
  proof (cases "s = q")
    case True
    then show ?thesis using leaves by auto
  next
    case False
    with that inv obtain r where r: "prefix r (splitDot s)" "leafAt ret r"
      by (auto simp: fieldInv_def)
    show ?thesis
    proof (cases "prefix (splitDot q) r")
      case True
      then have "prefix (splitDot q) (splitDot s)" using r(1) by (rule prefix_order.trans)
      then show ?thesis using leaves by auto
    next
      case False
      then show ?thesis using r leaves by auto
    qed
  qed
  ultimately show ?thesis by (simp add: fieldInv_def)
qed

lemma fieldInv_setFields:
  "fieldInv ret S \<Longrightarrow> sorted (map (\<lambda>f. - int (length f)) fs) \<Longrightarrow>
   (\<And>a f. a \<in> S \<Longrightarrow> f \<in> set fs \<Longrightarrow> length f \<le> length a) \<Longrightarrow>
   \<exists>ret'. setFields ret fs = Inr ret' \<and> fieldInv ret' (S \<union> set fs)"
proof (induction fs arbitrary: ret S)
  case Nil
  then show ?case by simp
next
  case (Cons f fs)
  let ?ret1 = "setPathLoop ret (splitDot f) (JBool True)"
  have ns: "\<not> isScalar ret" using Cons.prems(1) by (simp add: fieldInv_def)
  have step: "fieldInv ?ret1 (insert f S)"
    using Cons.prems(1) by (rule fieldInv_step) (simp add: Cons.prems(3))
  have "\<exists>ret'. setFields ?ret1 fs = Inr ret' \<and> fieldInv ret' (insert f S \<union> set fs)"
  proof (rule Cons.IH [OF step])
    show "sorted (map (\<lambda>f. - int (length f)) fs)" using Cons.prems(2) by simp
  next
    fix a g assume "a \<in> insert f S" "g \<in> set fs"
    then show "length g \<le> length a"
      using Cons.prems(2) Cons.prems(3) [of a g] by auto
  qed
  then show ?case using ns by (simp add: setPath_def)
qed

lemma setFields_sorted:
  "\<exists>ret. setFields (Obj []) (sortFields flds) = Inr ret \<and> fieldInv ret (set flds)"
proof -
  have "fieldInv (Obj []) {}" by (simp add: fieldInv_def)
  then have "\<exists>ret'. setFields (Obj []) (sortFields flds) = Inr ret'
      \<and> fieldInv ret' ({} \<union> set (sortFields flds))"
    by (rule fieldInv_setFields) (simp_all add: sortFields_def)
  then show ?thesis by (simp add: sortFields_def)
qed

text \<open>
  Field lists (C8), where the source reads and writes own keys. For a list of paths with
  no segment inherited from \<open>Object.prototype\<close>, \<open>createMaskFromFieldList\<close> does not
  fail, and in the mask it builds every listed
  path resolves to exactly \<open>true\<close> (\<open>checkPath\<close>): the fields are set longest first
  (\<open>sortFields\<close>), so a listed path that is a prefix of a longer one is written after
  it and overwrites its finer structure; the shortest listed prefix of a listed path is
  stored as \<open>true\<close> itself (\<open>getPath\<close>). On \<open>["foo", "bar.baz", "bar.baz.biz"]\<close> the
  tree is \<open>{bar: {baz: true}, foo: true}\<close>, the tree \<open>{foo: true, bar: {baz: true}}\<close>
  of the scenario with its keys in insertion order. A segment \<open>__proto__\<close> is outside
  this result: in the source the assignment \<open>cur['__proto__'] = true\<close> of \<open>setPath\<close>
  creates no property, so \<open>createMaskFromFieldList(['__proto__'])\<close> is the mask \<open>{}\<close>,
  which does not allow the listed path.
\<close>

theorem createMaskFromFieldList_paths:
  "(\<forall>flds. list_all pathFree flds \<longrightarrow> (\<exists>m. createMaskFromFieldList flds = Inr m \<and>
      (\<forall>p\<in>set flds. checkPath m p \<and>
         (\<exists>q\<in>set flds. prefix (splitDot q) (splitDot p) \<and> getPath (mask_tree m) q = JBool True)))) \<and>
   createMaskFromFieldList [''foo'', ''bar.baz'', ''bar.baz.biz'']
     = Inr \<lparr> mask_tree = Obj [(''bar'', Obj [(''baz'', JBool True)]), (''foo'', JBool True)] \<rparr> \<and>
   deepEquals (Obj [(''bar'', Obj [(''baz'', JBool True)]), (''foo'', JBool True)])
              (Obj [(''foo'', JBool True), (''bar'', Obj [(''baz'', JBool True)])])"
proof (intro conjI allI impI)
  fix flds
  obtain ret where ret: "setFields (Obj []) (sortFields flds) = Inr ret" "fieldInv ret (set flds)"
    using setFields_sorted by blast
  then have tt: "ttree ret" by (simp add: fieldInv_def)
  then have mt: "mask_tree (newObjectMask ret) = ret" by (simp add: newObjectMask_plain ttree_plain)
  have "checkPath (newObjectMask ret) p \<and>
      (\<exists>q\<in>set flds. prefix (splitDot q) (splitDot p) \<and> getPath ret q = JBool True)"
    if "p \<in> set flds" for p
  proof -
    from that ret(2) obtain r where r: "prefix r (splitDot p)" "leafAt ret r"
      by (auto simp: fieldInv_def)
    then obtain q where q: "q \<in> set flds" "r = splitDot q" using ret(2) by (auto simp: fieldInv_def)
    have "getSubMaskLoop ret (splitDot p) = JBool True"
      using r q by (auto intro: leafAt_getSubMaskLoop)
    then have "checkPath (newObjectMask ret) p"
      by (simp add: checkPath_def getSubMask_def mt orFalse_def newObjectMask_plain)
    moreover have "getPath ret q = JBool True"
      using r(2) q(2) by (simp add: getPath_def leafAt_getPathLoop)
    ultimately show ?thesis using q r by auto
  qed
  then show "\<exists>m. createMaskFromFieldList flds = Inr m \<and>
      (\<forall>p\<in>set flds. checkPath m p \<and>
         (\<exists>q\<in>set flds. prefix (splitDot q) (splitDot p) \<and> getPath (mask_tree m) q = JBool True))"
    using ret(1) mt by (auto simp: createMaskFromFieldList_def)
next
  show "createMaskFromFieldList [''foo'', ''bar.baz'', ''bar.baz.biz'']
     = Inr \<lparr> mask_tree = Obj [(''bar'', Obj [(''baz'', JBool True)]), (''foo'', JBool True)] \<rparr>"
    by (simp add: createMaskFromFieldList_def sortFields_def setPath_def key_eval newObjectMask_def
        cloneDeep_def underscorizeArrays_plain)
next
  show "deepEquals (Obj [(''bar'', Obj [(''baz'', JBool True)]), (''foo'', JBool True)])
              (Obj [(''foo'', JBool True), (''bar'', Obj [(''baz'', JBool True)])])"
    by (simp add: deepEquals.simps scalarEquals_def key_eval)
qed

theorem createMaskFromFieldList_paths_witness:
  "\<exists>m. createMaskFromFieldList [''a.b'', ''a'', ''c.d''] = Inr m \<and>
     checkPath m ''a.b'' \<and> checkPath m ''a'' \<and> checkPath m ''c.d'' \<and>
     getPath (mask_tree m) ''a'' = JBool True \<and> getPath (mask_tree m) ''c.d'' = JBool True"
proof -
  have pf: "list_all pathFree [''a.b'', ''a'', ''c.d'']"
    by (simp add: pathFree_def protoNames_def)
  obtain m where m: "createMaskFromFieldList [''a.b'', ''a'', ''c.d''] = Inr m"
    and all: "\<forall>p\<in>set [''a.b'', ''a'', ''c.d'']. checkPath m p \<and>
         (\<exists>q\<in>set [''a.b'', ''a'', ''c.d'']. prefix (splitDot q) (splitDot p)
            \<and> getPath (mask_tree m) q = JBool True)"
    using createMaskFromFieldList_paths pf by blast
  have "mask_tree m = Obj [(''a'', JBool True), (''c'', Obj [(''d'', JBool True)])]"
    using m by (auto simp: createMaskFromFieldList_def sortFields_def setPath_def key_eval
        newObjectMask_def cloneDeep_def underscorizeArrays_plain)
  then have "getPath (mask_tree m) ''a'' = JBool True \<and> getPath (mask_tree m) ''c.d'' = JBool True"
    by (simp add: getPath_def key_eval)
  with m all show ?thesis by auto
qed



section \<open>Inversion\<close>

lemma invert_scalar: "isScalar m \<Longrightarrow> invert m = JBool (\<not> truthy m)"
  by (simp add: invert.simps)

lemma map_of_invert:
  assumes "\<not> isScalar m"
  shows "map_of (props (invert m)) x =
     (if x = ''_'' then
        (if hasKey ''_'' m
         then (if truthy (invert (getKey m ''_'')) then Some (invert (getKey m ''_'')) else None)
         else Some (JBool True))
      else (if hasKey x m then Some (invert (getKey m x)) else None))"
proof -
  let ?result = "forInSet (keysOf m) (\<lambda>key. Some (invert (getKey m key))) []"
  have look: "map_of ?result y = (if hasKey y m then Some (invert (getKey m y)) else None)" for y
    by (simp add: map_of_forInSet hasKey_keysOf)
  have inv: "invert m = (if \<not> hasProp ''_'' ?result then Obj (AList.update ''_'' (JBool True) ?result)
           else if \<not> truthy (getProp ?result ''_'') then Obj (AList.delete ''_'' ?result)
           else Obj ?result)"
    using assms by (subst invert.simps) (simp add: Let_def)
  show ?thesis
    unfolding inv
    by (auto simp: look hasProp_def getProp_def update_conv' delete_conv')
qed

lemma invert_nonscalar: "\<not> isScalar m \<Longrightarrow> \<not> isScalar (invert m) \<and> invert m \<noteq> JBool True"
  by (subst invert.simps, subst (2) invert.simps) (simp add: Let_def)

lemma invert_cases: "(\<exists>b. invert m = JBool b) \<or> (\<exists>kvs. invert m = Obj kvs)"
  by (subst invert.simps, subst (2) invert.simps) (simp add: Let_def)

lemma valWhitelist_scalar: "isScalar m \<Longrightarrow> valWhitelist m \<longleftrightarrow> (m = JBool True \<or> m = JBool False)"
  by (cases m) (auto simp: valWhitelist.simps)

lemma nonscalar_typeofObject: "\<not> isScalar m \<Longrightarrow> typeofObject m"
  by (cases m) auto

lemma valWhitelist_child:
  assumes "\<not> isScalar m" "valWhitelist m" "hasKey k m"
  shows "valWhitelist (getKey m k)"
proof -
  have "list_all (\<lambda>key. valWhitelist (getKey m key)) (keysOf m)"
    using assms(1,2) by (subst (asm) valWhitelist.simps) (simp add: nonscalar_typeofObject)
  then show ?thesis using assms(3) by (simp add: list_all_iff hasKey_keysOf)
qed

lemma defined_hasKey: "getKey m k \<noteq> Undefined \<Longrightarrow> hasKey k m"
  by (rule ccontr) (simp add: getKey_absent)

text \<open>The value a path resolves to, up to the final \<open>|| false\<close>.\<close>

lemma getSubMaskLoop_invert:
  "valWhitelist m \<or> m = Undefined \<Longrightarrow>
   getSubMaskLoop (invert m) ps = JBool True \<longleftrightarrow>
     (isScalar (getSubMaskLoop m ps) \<and> getSubMaskLoop m ps \<noteq> JBool True)"
proof (induction ps arbitrary: m)
  case Nil
  show ?case
  proof (cases "isScalar m")
    case True
    then show ?thesis using Nil by (auto simp: invert_scalar valWhitelist_scalar)
  next
    case False
    then show ?thesis using invert_nonscalar [of m] by simp
  qed
next
  case (Cons k ks)
  show ?case
  proof (cases "isScalar m")
    case True
    then show ?thesis using Cons.prems by (auto simp: invert_scalar valWhitelist_scalar)
  next
    case False
    then have val: "valWhitelist m" using Cons.prems by auto
    define c where "c = (if hasKey k m then getKey m k else getKey m ''_'')"
    define c' where "c' = (if hasKey k (invert m) then getKey (invert m) k else getKey (invert m) ''_'')"
    have cval: "valWhitelist c \<or> c = Undefined"
      using val False by (auto simp: c_def valWhitelist_child dest: defined_hasKey)
    have IH: "getSubMaskLoop (invert c) ks = JBool True \<longleftrightarrow>
        (isScalar (getSubMaskLoop c ks) \<and> getSubMaskLoop c ks \<noteq> JBool True)"
      using Cons.IH [OF cval] .
    have look: "\<And>x. map_of (props (invert m)) x =
       (if x = ''_'' then
        (if hasKey ''_'' m
         then (if truthy (invert (getKey m ''_'')) then Some (invert (getKey m ''_'')) else None)
         else Some (JBool True))
      else (if hasKey x m then Some (invert (getKey m x)) else None))"
      using map_of_invert [OF False] .
    have falsy: "invert x = JBool False" if "\<not> truthy (invert x)" for x
      using that invert_cases [of x] by auto
    have rel: "c' = invert c \<or> (c' = Undefined \<and> invert c = JBool False)"
      unfolding c'_def c_def
      using falsy [of "getKey m ''_''"]
      by (auto simp: hasKey_def hasProp_def getKey_def getProp_def look invert_scalar)
    have step1: "getSubMaskLoop (invert m) (k # ks) = getSubMaskLoop c' ks"
      using invert_nonscalar [OF False] by (simp add: c'_def)
    have step2: "getSubMaskLoop m (k # ks) = getSubMaskLoop c ks"
      using False by (simp add: c_def)
    have "getSubMaskLoop c' ks = JBool True \<longleftrightarrow> getSubMaskLoop (invert c) ks = JBool True"
      using rel by (auto simp: getSubMaskLoop_scalar)
    then show ?thesis using IH step1 step2 by simp
  qed
qed

lemma underscorizeArrays_True: "underscorizeArrays x = JBool True \<longleftrightarrow> x = JBool True"
  by (cases x) (auto simp: underscorizeArrays.simps)

lemma underscorizeArrays_isScalar: "isScalar (underscorizeArrays x) \<longleftrightarrow> isScalar x"
  by (cases x) (auto simp: underscorizeArrays.simps)

lemma orFalse_True: "orFalse x = JBool True \<longleftrightarrow> x = JBool True"
  by (cases x) (auto simp: orFalse_def)

lemma orFalse_isScalar: "isScalar (orFalse x) \<longleftrightarrow> isScalar x"
  by (cases x) (auto simp: orFalse_def)

lemma checkPath_iff:
  "checkPath this p \<longleftrightarrow> getSubMaskLoop (mask_tree this) (splitDot p) = JBool True"
  by (simp add: checkPath_def getSubMask_def newObjectMask_def cloneDeep_def
      underscorizeArrays_True orFalse_True)

lemma getSubMask_isScalar:
  "isScalar (mask_tree (getSubMask this p)) \<longleftrightarrow> isScalar (getSubMaskLoop (mask_tree this) (splitDot p))"
  by (simp add: getSubMask_def newObjectMask_def cloneDeep_def
      underscorizeArrays_isScalar orFalse_isScalar)

lemma plain_update: "plain (Obj kvs) \<Longrightarrow> plain v \<Longrightarrow> plain (Obj (AList.update k v kvs))"
  by (auto simp: distinct_update list_all_iff dest!: set_update_cases)

lemma plain_delete: "plain (Obj kvs) \<Longrightarrow> plain (Obj (AList.delete k kvs))"
proof -
  assume "plain (Obj kvs)"
  then have "distinct (map fst (AList.delete k kvs))" by (simp add: distinct_delete)
  moreover have "set (AList.delete k kvs) \<subseteq> set kvs" by (auto simp: AList.delete_eq)
  ultimately show ?thesis using \<open>plain (Obj kvs)\<close> by (auto simp: list_all_iff)
qed

lemma invert_plain: "plain (invert m)"
proof (induction m rule: invert.induct)
  case (1 m)
  show ?case
  proof (cases "isScalar m")
    case True
    then show ?thesis by (simp add: invert_scalar)
  next
    case False
    let ?result = "forInSet (keysOf m) (\<lambda>key. Some (invert (getKey m key))) []"
    have inv: "invert m = (if \<not> hasProp ''_'' ?result then Obj (AList.update ''_'' (JBool True) ?result)
           else if \<not> truthy (getProp ?result ''_'') then Obj (AList.delete ''_'' ?result)
           else Obj ?result)"
      using False by (subst invert.simps) (simp add: Let_def)
    have d: "distinct (map fst (forInSet ks f acc))" if "distinct (map fst acc)" for ks f acc
      using that by (induction ks arbitrary: acc) (auto simp: distinct_update split: option.splits)
    have p: "list_all (\<lambda>(k, v). plain v) (forInSet ks (\<lambda>key. Some (invert (getKey m key))) acc)"
      if "list_all (\<lambda>(k, v). plain v) acc" "set ks \<subseteq> set (keysOf m)" for ks acc
      using that
    proof (induction ks arbitrary: acc)
      case Nil
      then show ?case by simp
    next
      case (Cons a ks)
      have "plain (invert (getKey m a))" using "1.IH" [OF False] Cons.prems(2) by simp
      then have "list_all (\<lambda>(k, v). plain v) (AList.update a (invert (getKey m a)) acc)"
        using Cons.prems(1) by (auto simp: list_all_iff dest!: set_update_cases)
      then show ?case using Cons by simp
    qed
    have dr: "distinct (map fst ?result)" by (rule d) simp
    have pr: "list_all (\<lambda>(k, v). plain v) ?result" by (rule p) simp_all
    have pl: "plain (Obj ?result)" using dr pr by simp
    have "plain (Obj (AList.update ''_'' (JBool True) ?result))"
      using pl by (rule plain_update) simp
    moreover have "plain (Obj (AList.delete ''_'' ?result))"
      using pl by (rule plain_delete)
    ultimately show ?thesis
      unfolding inv using pl by presburger
  qed
qed

text \<open>
  C4 (amended). For a mask that passes \<open>validate()\<close>, whose tree is built of objects
  (no sequence) with no key inherited from \<open>Object.prototype\<close>, and for every dotted path
  with no such segment, the inverted mask allows the path exactly when the mask does not
  allow it and \<open>getSubMask\<close> resolves it to a boolean (a leaf, or \<open>false\<close> for a missing
  key) rather than to a sub-tree. So inversion swaps allowed and disallowed on every path
  that resolves to a leaf; a path that stops inside the tree is disallowed before and
  after. Nothing is said of keys and segments such as \<open>toString\<close> or \<open>__proto__\<close>.
\<close>

theorem invertMask_duality_amended:
  assumes "validate this" and "plain (mask_tree this)" and "protoFree (mask_tree this)"
    and "pathFree p"
  shows "checkPath (invertMask (IsObjectMask this)) p \<longleftrightarrow>
     (\<not> checkPath this p \<and> isScalar (mask_tree (getSubMask this p)))"
  using getSubMaskLoop_invert [of "mask_tree this" "splitDot p"] assms(1)
  by (auto simp: checkPath_iff getSubMask_isScalar invertMask_def validate_def
      newObjectMask_plain invert_plain)


theorem invertMask_duality_amended_witness:
  "validate \<lparr> mask_tree = Obj [(''foo'', Obj [(''bar'', JBool True)])] \<rparr> \<and>
   plain (Obj [(''foo'', Obj [(''bar'', JBool True)])]) \<and>
   protoFree (Obj [(''foo'', Obj [(''bar'', JBool True)])]) \<and>
   pathFree ''foo.baz'' \<and>
   \<not> checkPath \<lparr> mask_tree = Obj [(''foo'', Obj [(''bar'', JBool True)])] \<rparr> ''foo.baz'' \<and>
   checkPath (invertMask (IsObjectMask \<lparr> mask_tree = Obj [(''foo'', Obj [(''bar'', JBool True)])] \<rparr>)) ''foo.baz''"
proof -
  let ?m = "\<lparr> mask_tree = Obj [(''foo'', Obj [(''bar'', JBool True)])] \<rparr>"
  have v: "validate ?m" by (simp add: validate_def valWhitelist.simps key_eval)
  have f: "plain (mask_tree ?m)" "protoFree (mask_tree ?m)" "pathFree ''foo.baz''"
    by (simp_all add: pathFree_def protoNames_def)
  have n: "\<not> checkPath ?m ''foo.baz''" by (simp add: checkPath_iff key_eval)
  have s: "isScalar (mask_tree (getSubMask ?m ''foo.baz''))"
    by (simp add: getSubMask_isScalar key_eval)
  from invertMask_duality_amended [OF v f] n s v f show ?thesis by simp
qed

text \<open>
  C4 as stated fails. On the valid mask \<open>{foo: {bar: true}}\<close> the path \<open>foo\<close> resolves to
  a sub-tree, and \<open>checkPath\<close> is false on the mask and on its inverse. On the mask
  \<open>{a: 5}\<close> (a non-boolean leaf) the path \<open>a\<close> is disallowed, and \<open>!5\<close> is \<open>false\<close>, so
  it is disallowed in the inverse as well.
\<close>

theorem invertMask_duality_counterexample:
  "validate \<lparr> mask_tree = Obj [(''foo'', Obj [(''bar'', JBool True)])] \<rparr> \<and>
   \<not> checkPath \<lparr> mask_tree = Obj [(''foo'', Obj [(''bar'', JBool True)])] \<rparr> ''foo'' \<and>
   \<not> checkPath (invertMask (IsObjectMask \<lparr> mask_tree = Obj [(''foo'', Obj [(''bar'', JBool True)])] \<rparr>)) ''foo'' \<and>
   \<not> checkPath \<lparr> mask_tree = Obj [(''a'', Num 5)] \<rparr> ''a'' \<and>
   \<not> checkPath (invertMask (IsObjectMask \<lparr> mask_tree = Obj [(''a'', Num 5)] \<rparr>)) ''a''"
  by (simp add: validate_def valWhitelist.simps checkPath_iff invertMask_def newObjectMask_plain
      invert_plain invert.simps key_eval update_conv')


section \<open>Filtering twice\<close>

text \<open>
  The property keys of sequence elements are the decimal index strings. A mask has no
  index key when none of its nodes has such a key of its own, so that every element of
  a sequence resolves to the wildcard of the node.
\<close>

definition isIndexKey :: "string \<Rightarrow> bool" where
  "isIndexKey k \<longleftrightarrow> k \<noteq> [] \<and> list_all (\<lambda>c. c \<in> set ''0123456789'') k"

fun noIndexKeys :: "jsval \<Rightarrow> bool" where
  "noIndexKeys (Obj kvs) = list_all (\<lambda>(k, v). \<not> isIndexKey k \<and> noIndexKeys v) kvs"
| "noIndexKeys (Arr xs) = (xs = [])"
| "noIndexKeys v = True"

definition stepMask :: "jsval \<Rightarrow> string \<Rightarrow> jsval" where
  "stepMask m key = orFalse (if hasKey key m then getKey m key else getKey m ''_'')"

definition subPath :: "string \<Rightarrow> string \<Rightarrow> string" where
  "subPath path key = (if path \<noteq> [] then path @ ''.'' @ key else key)"

lemma digit_in: "digit d \<in> set ''0123456789''"
  unfolding digit_def by (rule nth_mem) simp

lemma isIndexKey_showNat: "isIndexKey (showNat n)"
proof (induction n rule: showNat.induct)
  case (1 n)
  show ?case
  proof (cases "n < 10")
    case True
    then show ?thesis using digit_in [of n] by (subst showNat.simps) (simp add: isIndexKey_def)
  next
    case False
    then show ?thesis using 1 digit_in [of "n mod 10"]
      by (subst showNat.simps) (simp add: isIndexKey_def)
  qed
qed

lemma arrKeys_index: "k \<in> set (arrKeys xs) \<Longrightarrow> isIndexKey k"
  by (auto simp: arrKeys_def isIndexKey_showNat)

lemma noIndexKeys_hasKey: "noIndexKeys m \<Longrightarrow> isIndexKey k \<Longrightarrow> \<not> hasKey k m"
  by (cases m) (auto simp: hasKey_def hasProp_def list_all_iff map_of_eq_None_iff)

lemma noIndexKeys_getKey: "noIndexKeys m \<Longrightarrow> noIndexKeys (getKey m k)"
  by (cases m) (auto simp: getKey_def getProp_def list_all_iff split: option.splits dest!: map_of_SomeD)

lemma noIndexKeys_stepMask: "noIndexKeys m \<Longrightarrow> noIndexKeys (stepMask m k)"
  by (auto simp: stepMask_def orFalse_def noIndexKeys_getKey)

lemma stepMask_index:
  "noIndexKeys m \<Longrightarrow> isIndexKey k \<Longrightarrow> stepMask m k = orFalse (getKey m ''_'')"
  by (simp add: stepMask_def noIndexKeys_hasKey)

lemma filter_map_pairs:
  "map (\<lambda>(key, r). fst r) (filter (\<lambda>(key, r). fst r \<noteq> Undefined)
      (map (\<lambda>(key, child). (key, F key child)) xs))
   = filter (\<lambda>v. v \<noteq> Undefined) (map (\<lambda>(key, child). fst (F key child)) xs)"
  by (induction xs) auto

lemma filter_map_pairs_obj:
  "map (\<lambda>(key, r). (key, fst r)) (filter (\<lambda>(key, r). fst r \<noteq> Undefined)
      (map (\<lambda>(key, child). (key, F key child)) xs))
   = filter (\<lambda>(k, v). v \<noteq> Undefined) (map (\<lambda>(key, child). (key, fst (F key child))) xs)"
  by (induction xs) auto

lemma filterDeep_True: "fst (filterDeep obj (JBool True) path) = obj"
  by (simp add: filterDeep.simps)

lemma filterDeep_out:
  "m \<noteq> JBool True \<Longrightarrow> \<not> (truthy m \<and> \<not> isScalar obj \<and> \<not> isScalar m) \<Longrightarrow>
   filterDeep obj m path = (Undefined, [path])"
  by (subst filterDeep.simps) auto

lemma filterDeep_fst_rec:
  assumes "truthy m" "\<not> isScalar obj" "\<not> isScalar m"
  shows "fst (filterDeep obj m path) =
     (if isArray obj
      then Arr (filter (\<lambda>v. v \<noteq> Undefined)
             (map (\<lambda>(key, child). fst (filterDeep child (stepMask m key) (subPath path key)))
                (props obj)))
      else Obj (filter (\<lambda>(k, v). v \<noteq> Undefined)
             (map (\<lambda>(key, child). (key, fst (filterDeep child (stepMask m key) (subPath path key))))
                (props obj))))"
proof -
  have "m \<noteq> JBool True" using assms(3) by auto
  then show ?thesis
    using assms
    by (subst filterDeep.simps)
       (simp add: Let_def filter_map_pairs filter_map_pairs_obj stepMask_def subPath_def)
qed

lemma filterDeep_idem:
  "noIndexKeys m \<Longrightarrow>
   fst (filterDeep (fst (filterDeep obj m path)) m path') = fst (filterDeep obj m path)"
proof (induction obj m path arbitrary: path' rule: filterDeep.induct)
  case (1 obj m path)
  show ?case
  proof (cases "m = JBool True")
    case True
    then show ?thesis by (simp add: filterDeep_True)
  next
    case mT: False
    show ?thesis
    proof (cases "truthy m \<and> \<not> isScalar obj \<and> \<not> isScalar m")
      case False
      then show ?thesis using mT by (simp add: filterDeep_out)
    next
      case True
      then have t: "truthy m" "\<not> isScalar obj" "\<not> isScalar m" by auto
      have IH: "fst (filterDeep (fst (filterDeep child (stepMask m key) (subPath path key)))
                  (stepMask m key) p') = fst (filterDeep child (stepMask m key) (subPath path key))"
        if "(key, child) \<in> set (props obj)" for key child p'
        using "1.IH" [OF mT True that refl, of p'] "1.prems"
        by (simp add: stepMask_def [symmetric] subPath_def [symmetric] noIndexKeys_stepMask)
      let ?G = "\<lambda>key child. fst (filterDeep child (stepMask m key) (subPath path key))"
      show ?thesis
      proof (cases "isArray obj")
        case False
        let ?L = "filter (\<lambda>(k, v). v \<noteq> Undefined) (map (\<lambda>(key, child). (key, ?G key child)) (props obj))"
        have first: "fst (filterDeep obj m path) = Obj ?L"
          using filterDeep_fst_rec [OF t] False by simp
        have el: "fst (filterDeep v (stepMask m key) (subPath path' key)) = v \<and> v \<noteq> Undefined"
          if "(key, v) \<in> set ?L" for key v
        proof -
          from that obtain child where kc: "(key, child) \<in> set (props obj)"
            "v = ?G key child" "v \<noteq> Undefined" by auto
          show ?thesis using IH [OF kc(1), of "subPath path' key"] kc(2,3) by simp
        qed
        have "map (\<lambda>(key, child). (key, fst (filterDeep child (stepMask m key) (subPath path' key)))) ?L
            = ?L"
        proof (rule map_idI)
          fix x assume x: "x \<in> set ?L"
          obtain key v where xy: "x = (key, v)" by (cases x)
          then show "(case x of (key, child) \<Rightarrow>
              (key, fst (filterDeep child (stepMask m key) (subPath path' key)))) = x"
            using el [of key v] x by simp
        qed
        moreover have "filter (\<lambda>(k, v). v \<noteq> Undefined) ?L = ?L"
          by simp
        ultimately have second: "filter (\<lambda>(k, v). v \<noteq> Undefined)
              (map (\<lambda>(key, child). (key, fst (filterDeep child (stepMask m key) (subPath path' key)))) ?L)
            = ?L"
          by presburger
        have "fst (filterDeep (Obj ?L) m path') = Obj ?L"
          using t by (subst filterDeep_fst_rec) (simp_all only: second isScalar.simps isArray.simps props.simps if_False not_False_eq_True)
        then show ?thesis
          unfolding first .
      next
        case True
        let ?ys = "filter (\<lambda>v. v \<noteq> Undefined) (map (\<lambda>(key, child). ?G key child) (props obj))"
        have first: "fst (filterDeep obj m path) = Arr ?ys"
          using filterDeep_fst_rec [OF t] True by simp
        obtain xs where obj: "obj = Arr xs" using True by (cases obj) auto
        have keys: "isIndexKey key" if "(key, child) \<in> set (props obj)" for key child
          using that obj by (auto dest!: set_zip_leftD arrKeys_index)
        have el: "fst (filterDeep y (orFalse (getKey m ''_'')) p') = y \<and> y \<noteq> Undefined"
          if "y \<in> set ?ys" for y p'
        proof -
          from that obtain key child where kc: "(key, child) \<in> set (props obj)"
            "y = ?G key child" "y \<noteq> Undefined" by auto
          have "stepMask m key = orFalse (getKey m ''_'')"
            using "1.prems" keys [OF kc(1)] by (rule stepMask_index)
          then show ?thesis using IH [OF kc(1), of p'] kc(2,3) by simp
        qed
        have "filter (\<lambda>v. v \<noteq> Undefined)
              (map (\<lambda>(key, child). fst (filterDeep child (stepMask m key) (subPath path' key)))
                 (props (Arr ?ys))) = ?ys"
        proof -
          have "map (\<lambda>(key, child). fst (filterDeep child (stepMask m key) (subPath path' key)))
                 (props (Arr ?ys)) = map snd (props (Arr ?ys))"
          proof (rule map_cong [OF refl])
            fix x assume x: "x \<in> set (props (Arr ?ys))"
            obtain key y where xy: "x = (key, y)" by (cases x)
            with x have ky: "key \<in> set (arrKeys ?ys)" "y \<in> set ?ys"
              by (auto dest: set_zip_leftD set_zip_rightD)
            have "stepMask m key = orFalse (getKey m ''_'')"
              using "1.prems" arrKeys_index [OF ky(1)] by (rule stepMask_index)
            moreover have "fst (filterDeep y (orFalse (getKey m ''_'')) (subPath path' key)) = y"
              using el [OF ky(2)] by blast
            ultimately show "(case x of (key, child) \<Rightarrow>
                fst (filterDeep child (stepMask m key) (subPath path' key))) = snd x"
              using xy by simp
          qed
          also have "\<dots> = ?ys" by (simp add: arrKeys_def)
          finally show ?thesis by simp
        qed
        then have "fst (filterDeep (Arr ?ys) m path') = Arr ?ys"
          using t by (subst filterDeep_fst_rec) (simp_all only: isScalar.simps isArray.simps if_True not_False_eq_True)
        then show ?thesis
          unfolding first .
      qed
    qed
  qed
qed


lemma deepEquals_refl: "deepEquals a a"
proof -
  have "a = b \<longrightarrow> deepEquals a b" for b
  proof (induction a b rule: deepEquals.induct)
    case (1 a b)
    show ?case
    proof
      assume ab: "a = b"
      show "deepEquals a b"
      proof (cases "isScalar a")
        case True
        then show ?thesis using ab by (subst deepEquals.simps) (simp add: scalarEquals_def)
      next
        case False
        then have ns: "a \<noteq> Null" "a \<noteq> Undefined" by auto
        have "list_all (\<lambda>k. deepEquals (getKey a k) (getKey b k)) (keysOf a)"
          unfolding list_all_iff
        proof
          fix k assume k: "k \<in> set (keysOf a)"
          show "deepEquals (getKey a k) (getKey b k)"
          proof (cases "isArray a")
            case True
            then show ?thesis using "1.IH"(1) [of k] False ns ab k by simp
          next
            case False
            then show ?thesis using "1.IH"(2) [of k] \<open>\<not> isScalar a\<close> ns ab k by simp
          qed
        qed
        then show ?thesis using False ns ab by (subst deepEquals.simps) simp
      qed
    qed
  qed
  then show ?thesis by simp
qed

text \<open>
  C5 (amended). Filtering is idempotent for every value and every mask that has no
  index key: then the elements of a sequence all resolve to the wildcard of the mask
  node, and the elements that are kept and re-indexed are kept again. The second
  filtering returns the very value of the first, which is more than deep equality.
\<close>

theorem filterObject_idempotent_amended:
  "noIndexKeys (mask_tree this) \<Longrightarrow>
   filterObject this (filterObject this v) = filterObject this v \<and>
   deepEquals (filterObject this (filterObject this v)) (filterObject this v)"
  by (simp add: filterObject_def filterDeep_idem deepEquals_refl)

theorem filterObject_idempotent_amended_witness:
  "noIndexKeys (mask_tree \<lparr> mask_tree = Obj [(''_'', Obj [(''a'', JBool True)])] \<rparr>) \<and>
   filterObject \<lparr> mask_tree = Obj [(''_'', Obj [(''a'', JBool True)])] \<rparr>
     (Arr [Obj [(''a'', Num 1)], Num 5, Obj [(''a'', Num 2), (''b'', Num 3)]])
     = Arr [Obj [(''a'', Num 1)], Obj [(''a'', Num 2)]] \<and>
   filterObject \<lparr> mask_tree = Obj [(''_'', Obj [(''a'', JBool True)])] \<rparr>
     (filterObject \<lparr> mask_tree = Obj [(''_'', Obj [(''a'', JBool True)])] \<rparr>
        (Arr [Obj [(''a'', Num 1)], Num 5, Obj [(''a'', Num 2), (''b'', Num 3)]]))
     = Arr [Obj [(''a'', Num 1)], Obj [(''a'', Num 2)]]"
proof -
  let ?m = "\<lparr> mask_tree = Obj [(''_'', Obj [(''a'', JBool True)])] \<rparr>"
  let ?v = "Arr [Obj [(''a'', Num 1)], Num 5, Obj [(''a'', Num 2), (''b'', Num 3)]]"
  have n: "noIndexKeys (mask_tree ?m)" by (simp add: isIndexKey_def)
  have f: "filterObject ?m ?v = Arr [Obj [(''a'', Num 1)], Obj [(''a'', Num 2)]]"
    by (simp add: filterObject_def filterDeep.simps key_eval arrKeys_def upt_rec showNat.simps digit_def)
  from filterObject_idempotent_amended [OF n, of ?v] f n show ?thesis by simp
qed

text \<open>
  C5 as stated fails when the mask addresses a sequence position by its own key. The
  mask \<open>{0: false, _: true}\<close> drops the first element of \<open>[1, 2]\<close>; the result \<open>[2]\<close> is
  re-indexed, so its only element is now at position 0 and a second filtering drops it.
\<close>

theorem filterObject_idempotent_counterexample:
  "filterObject \<lparr> mask_tree = Obj [(''0'', JBool False), (''_'', JBool True)] \<rparr> (Arr [Num 1, Num 2])
     = Arr [Num 2] \<and>
   filterObject \<lparr> mask_tree = Obj [(''0'', JBool False), (''_'', JBool True)] \<rparr>
     (filterObject \<lparr> mask_tree = Obj [(''0'', JBool False), (''_'', JBool True)] \<rparr> (Arr [Num 1, Num 2]))
     = Arr [] \<and>
   \<not> deepEquals
     (filterObject \<lparr> mask_tree = Obj [(''0'', JBool False), (''_'', JBool True)] \<rparr>
       (filterObject \<lparr> mask_tree = Obj [(''0'', JBool False), (''_'', JBool True)] \<rparr> (Arr [Num 1, Num 2])))
     (filterObject \<lparr> mask_tree = Obj [(''0'', JBool False), (''_'', JBool True)] \<rparr> (Arr [Num 1, Num 2]))"
  by (simp add: filterObject_def filterDeep.simps key_eval arrKeys_def upt_rec showNat.simps digit_def
      deepEquals.simps)


section \<open>Subtraction and its errors\<close>







lemma valWhitelist_bool [simp]: "valWhitelist (JBool b)"
  by (simp add: valWhitelist.simps)








lemma subtract_throws:
  "truthy a \<Longrightarrow> a \<noteq> JBool True \<Longrightarrow> truthy b \<Longrightarrow> b \<noteq> JBool True \<Longrightarrow> \<not> isEqual a b \<Longrightarrow>
   isScalar a \<or> isScalar b \<Longrightarrow> subtract a b = Inl InvalidOperation"
  by (subst subtract.simps) auto





section \<open>Intersection\<close>

text \<open>The node a key leads to: \<open>key in mask ? mask[key] : mask._\<close>.\<close>

definition maskChild :: "jsval \<Rightarrow> string \<Rightarrow> jsval" where
  "maskChild m k = (if hasKey k m then getKey m k else getKey m ''_'')"

lemma getSubMaskLoop_Cons:
  "\<not> isScalar m \<Longrightarrow> getSubMaskLoop m (k # ks) = getSubMaskLoop (maskChild m k) ks"
  by (simp add: maskChild_def)

lemma falsy_isScalar: "\<not> truthy v \<Longrightarrow> isScalar v"
  by (cases v) auto

lemma getSubMaskLoop_falsy: "\<not> truthy v \<Longrightarrow> getSubMaskLoop v ks \<noteq> JBool True"
  using getSubMaskLoop_scalar [OF falsy_isScalar, of v ks] by auto

text \<open>The object \<open>andMask\<close> has built when it reaches \<open>sanitizeFalsies\<close>.\<close>

definition andMerged :: "jsval \<Rightarrow> jsval \<Rightarrow> jsprops" where
  "andMerged resultMask newMask =
     (let r1 = forInSet (keysOf newMask) (\<lambda>key.
                   if key \<noteq> ''_'' \<and> hasKey key resultMask
                   then Some (andMask (getKey resultMask key) (getKey newMask key))
                   else None) (props resultMask);
          r2 = forInSet (keysOf resultMask) (\<lambda>key.
                   if key \<noteq> ''_'' \<and> \<not> hasKey key newMask
                   then Some (if hasKey ''_'' newMask
                              then andMask (getKey resultMask key) (getKey newMask ''_'')
                              else JBool False)
                   else None) r1;
          r3 = forInSet (keysOf newMask) (\<lambda>key.
                   if key \<noteq> ''_'' \<and> \<not> hasKey key resultMask
                   then Some (if hasKey ''_'' resultMask
                              then andMask (deepCopy (getKey newMask key)) (getKey resultMask ''_'')
                              else JBool False)
                   else None) r2
      in if hasKey ''_'' newMask \<and> hasKey ''_'' resultMask
         then AList.update ''_'' (andMask (getKey resultMask ''_'') (getKey newMask ''_'')) r3
         else AList.delete ''_'' r3)"

lemma andMask_nonscalar:
  "\<not> isScalar r \<Longrightarrow> \<not> isScalar n \<Longrightarrow>
   andMask r n = (if length (keysOf (sanitizeFalsies (Obj (andMerged r n)))) \<noteq> 0
                  then sanitizeFalsies (Obj (andMerged r n)) else JBool False)"
  by (subst andMask.simps) (auto simp: andMerged_def Let_def)

lemma andMask_True1: "andMask (JBool True) n = n"
  by (simp add: andMask.simps)

lemma andMask_True2: "r \<noteq> JBool True \<Longrightarrow> andMask r (JBool True) = r"
  by (simp add: andMask.simps)

lemma andMask_scalar:
  "r \<noteq> JBool True \<Longrightarrow> n \<noteq> JBool True \<Longrightarrow> isScalar r \<or> isScalar n \<Longrightarrow> andMask r n = JBool False"
  by (subst andMask.simps) auto

lemma map_of_andMerged:
  "map_of (andMerged r n) x =
     (if x = ''_'' then
        (if hasKey ''_'' n \<and> hasKey ''_'' r
         then Some (andMask (getKey r ''_'') (getKey n ''_'')) else None)
      else if hasKey x r then
        (if hasKey x n then Some (andMask (getKey r x) (getKey n x))
         else if hasKey ''_'' n then Some (andMask (getKey r x) (getKey n ''_''))
         else Some (JBool False))
      else if hasKey x n then
        (if hasKey ''_'' r then Some (andMask (getKey n x) (getKey r ''_''))
         else Some (JBool False))
      else None)"
  unfolding andMerged_def Let_def
  by (auto simp: map_of_forInSet update_conv' delete_conv' hasKey_keysOf [symmetric]
      hasKey_def hasProp_def)

lemma sanitizeFalsies_cases:
  "sanitizeFalsies (Obj kvs) = Obj kvs \<and> truthy (getKey (Obj kvs) ''_'') \<or>
   (\<not> truthy (getKey (Obj kvs) ''_'') \<and>
    (\<exists>kvs'. sanitizeFalsies (Obj kvs) = Obj kvs' \<and>
       (\<forall>x. map_of kvs' x = (if x = ''_'' \<or> map_of kvs x = Some (JBool False) then None
                               else map_of kvs x))))"
proof (cases "truthy (getKey (Obj kvs) ''_'')")
  case True
  then show ?thesis by (simp add: sanitizeFalsies_def)
next
  case False
  let ?o1 = "AList.delete ''_'' kvs"
  let ?kvs' = "forInDelete (map fst ?o1) (\<lambda>key. getProp ?o1 key = JBool False) ?o1"
  have "map_of ?kvs' x = (if x = ''_'' \<or> map_of kvs x = Some (JBool False) then None
                               else map_of kvs x)" for x
    by (auto simp: map_of_forInDelete delete_conv' getProp_def map_of_eq_None_iff [symmetric]
        split: option.splits)
  then show ?thesis using False by (auto simp: sanitizeFalsies_def Let_def)
qed

text \<open>Sanitizing and collapsing do not change what a path resolves to, as far as \<open>true\<close> goes.\<close>

lemma andMask_step:
  assumes "\<not> isScalar r" "\<not> isScalar n" "k \<noteq> ''_''"
  shows "getSubMaskLoop (andMask r n) (k # ks) = JBool True \<longleftrightarrow>
         getSubMaskLoop (maskChild (Obj (andMerged r n)) k) ks = JBool True"
proof -
  let ?kvs = "andMerged r n"
  let ?A = "\<lambda>x. getSubMaskLoop x ks = JBool True"
  have same: "?A (maskChild (sanitizeFalsies (Obj ?kvs)) k) \<longleftrightarrow> ?A (maskChild (Obj ?kvs) k)"
  proof -
    from sanitizeFalsies_cases [of ?kvs] show ?thesis
    proof (elim disjE conjE exE)
      assume "sanitizeFalsies (Obj ?kvs) = Obj ?kvs"
      then show ?thesis by simp
    next
      fix kvs'
      assume f: "\<not> truthy (getKey (Obj ?kvs) ''_'')"
        and s: "sanitizeFalsies (Obj ?kvs) = Obj kvs'"
        and l: "\<forall>x. map_of kvs' x = (if x = ''_'' \<or> map_of ?kvs x = Some (JBool False) then None
                               else map_of ?kvs x)"
      show ?thesis
      proof (cases "map_of ?kvs k")
        case None
        then have "maskChild (Obj kvs') k = Undefined" "maskChild (Obj ?kvs) k = getKey (Obj ?kvs) ''_''"
          using l by (auto simp: maskChild_def hasKey_def hasProp_def getKey_def getProp_def)
        then show ?thesis using f s getSubMaskLoop_falsy [of "getKey (Obj ?kvs) ''_''" ks]
            getSubMaskLoop_falsy [of Undefined ks] by simp
      next
        case (Some v)
        show ?thesis
        proof (cases "v = JBool False")
          case True
          then have "maskChild (Obj kvs') k = Undefined" "maskChild (Obj ?kvs) k = JBool False"
            using l Some by (auto simp: maskChild_def hasKey_def hasProp_def getKey_def getProp_def)
          then show ?thesis using s getSubMaskLoop_falsy [of "JBool False" ks]
            getSubMaskLoop_falsy [of Undefined ks] by simp
        next
          case False
          then have "maskChild (Obj kvs') k = v" "maskChild (Obj ?kvs) k = v"
            using l Some assms(3) by (auto simp: maskChild_def hasKey_def hasProp_def getKey_def getProp_def)
          then show ?thesis using s by simp
        qed
      qed
    qed
  qed
  obtain kvs' where s: "sanitizeFalsies (Obj ?kvs) = Obj kvs'"
    using sanitizeFalsies_cases [of ?kvs] by auto
  show ?thesis
  proof (cases "length (keysOf (Obj kvs')) \<noteq> 0")
    case True
    then have "andMask r n = Obj kvs'" using assms s by (simp add: andMask_nonscalar)
    then show ?thesis using same s by (simp add: getSubMaskLoop_Cons del: getSubMaskLoop.simps)
  next
    case False
    then have e: "kvs' = []" by (simp add: keysOf_def)
    then have "andMask r n = JBool False" using assms s by (simp add: andMask_nonscalar keysOf_def)
    moreover have "maskChild (Obj kvs') k = Undefined"
      using e by (simp add: maskChild_def key_eval)
    ultimately show ?thesis
      using same s getSubMaskLoop_falsy [of Undefined ks] by simp
  qed
qed

lemma maskChild_valid:
  "valWhitelist m \<Longrightarrow> \<not> isScalar m \<Longrightarrow> hasKey k m \<or> hasKey ''_'' m \<Longrightarrow> valWhitelist (maskChild m k)"
  by (auto simp: maskChild_def valWhitelist_child)

lemma andMask_sem:
  "valWhitelist r \<Longrightarrow> valWhitelist n \<Longrightarrow> ''_'' \<notin> set ps \<Longrightarrow>
   getSubMaskLoop (andMask r n) ps = JBool True \<longleftrightarrow>
     getSubMaskLoop r ps = JBool True \<and> getSubMaskLoop n ps = JBool True"
proof (induction ps arbitrary: r n)
  case Nil
  show ?case
  proof (cases "r = JBool True")
    case True
    then show ?thesis by (simp add: andMask_True1)
  next
    case rT: False
    show ?thesis
    proof (cases "n = JBool True")
      case True
      then show ?thesis using rT by (simp add: andMask_True2)
    next
      case nT: False
      show ?thesis
      proof (cases "isScalar r \<or> isScalar n")
        case True
        then show ?thesis using rT nT by (simp add: andMask_scalar)
      next
        case False
        then show ?thesis
          using rT sanitizeFalsies_cases [of "andMerged r n"]
          by (auto simp: andMask_nonscalar)
      qed
    qed
  qed
next
  case (Cons k ks)
  then have k: "k \<noteq> ''_''" and ks: "''_'' \<notin> set ks" by auto
  let ?A = "\<lambda>x. getSubMaskLoop x ks = JBool True"
  have IH: "?A (andMask x y) \<longleftrightarrow> ?A x \<and> ?A y" if "valWhitelist x" "valWhitelist y" for x y
    using Cons.IH [OF that ks] .
  show ?case
  proof (cases "r = JBool True")
    case True
    then show ?thesis by (simp add: andMask_True1)
  next
    case rT: False
    show ?thesis
    proof (cases "n = JBool True")
      case True
      then show ?thesis using rT by (simp add: andMask_True2)
    next
      case nT: False
      show ?thesis
      proof (cases "isScalar r \<or> isScalar n")
        case True
        then have "r = JBool False \<or> n = JBool False"
          using rT nT Cons.prems(1,2) by (auto simp: valWhitelist_scalar)
        then show ?thesis using True rT nT by (auto simp: andMask_scalar)
      next
        case False
        then have ns: "\<not> isScalar r" "\<not> isScalar n" by auto
        have vr: "valWhitelist (getKey r x)" if "hasKey x r" for x
          using valWhitelist_child [OF ns(1) Cons.prems(1) that] .
        have vn: "valWhitelist (getKey n x)" if "hasKey x n" for x
          using valWhitelist_child [OF ns(2) Cons.prems(2) that] .
        have U: "\<not> ?A Undefined" "\<not> ?A (JBool False)"
          using getSubMaskLoop_falsy [of Undefined ks] getSubMaskLoop_falsy [of "JBool False" ks] by auto
        have "?A (maskChild (Obj (andMerged r n)) k) \<longleftrightarrow> ?A (maskChild r k) \<and> ?A (maskChild n k)"
        proof -
          have c: "maskChild (Obj (andMerged r n)) k =
              (case map_of (andMerged r n) k of Some v \<Rightarrow> v
               | None \<Rightarrow> (case map_of (andMerged r n) ''_'' of Some w \<Rightarrow> w | None \<Rightarrow> Undefined))"
            by (auto simp: maskChild_def hasKey_def hasProp_def getKey_def getProp_def split: option.splits)
          consider (both) "hasKey k r" "hasKey k n"
            | (left) "hasKey k r" "\<not> hasKey k n"
            | (right) "\<not> hasKey k r" "hasKey k n"
            | (none) "\<not> hasKey k r" "\<not> hasKey k n"
            by blast
          then show ?thesis
          proof cases
            case both
            then show ?thesis
              unfolding c using k IH [OF vr vn, of k k]
              by (simp add: map_of_andMerged maskChild_def)
          next
            case left
            show ?thesis
            proof (cases "hasKey ''_'' n")
              case True
              then show ?thesis
                unfolding c using k left IH [OF vr vn, of k "''_''"]
                by (simp add: map_of_andMerged maskChild_def)
            next
              case False
              then show ?thesis
                unfolding c using k left U by (simp add: map_of_andMerged maskChild_def getKey_absent)
            qed
          next
            case right
            show ?thesis
            proof (cases "hasKey ''_'' r")
              case True
              then show ?thesis
                unfolding c using k right IH [OF vn vr, of k "''_''"]
                by (auto simp: map_of_andMerged maskChild_def)
            next
              case False
              then show ?thesis
                unfolding c using k right U by (simp add: map_of_andMerged maskChild_def getKey_absent)
            qed
          next
            case none
            show ?thesis
            proof (cases "hasKey ''_'' n \<and> hasKey ''_'' r")
              case True
              then show ?thesis
                unfolding c using k none IH [OF vr vn, of "''_''" "''_''"]
                by (simp add: map_of_andMerged maskChild_def)
            next
              case False
              then show ?thesis
                unfolding c using k none U
                by (auto simp: map_of_andMerged maskChild_def getKey_absent)
            qed
          qed
        qed
        then show ?thesis
          using andMask_step [OF ns k, of ks] ns
          by (simp add: getSubMaskLoop_Cons del: getSubMaskLoop.simps)
      qed
    qed
  qed
qed


text \<open>The intersection of plain trees is plain, so the constructor keeps it as it is.\<close>

lemma plain_forInSet:
  "plain (Obj acc) \<Longrightarrow> (\<And>k v. k \<in> set ks \<Longrightarrow> f k = Some v \<Longrightarrow> plain v)
   \<Longrightarrow> plain (Obj (forInSet ks f acc))"
proof (induction ks arbitrary: acc)
  case Nil
  then show ?case by simp
next
  case (Cons k ks)
  have "plain (Obj (case f k of None \<Rightarrow> acc | Some v \<Rightarrow> AList.update k v acc))"
    using Cons.prems(1) Cons.prems(2) [of k]
    by (auto split: option.splits intro: plain_update simp del: plain.simps)
  then have "plain (Obj (forInSet ks f (case f k of None \<Rightarrow> acc | Some v \<Rightarrow> AList.update k v acc)))"
    by (rule Cons.IH) (use Cons.prems(2) in auto)
  then show ?case by simp
qed

lemma plain_forInDelete: "plain (Obj acc) \<Longrightarrow> plain (Obj (forInDelete ks c acc))"
proof (induction ks arbitrary: acc)
  case Nil
  then show ?case by simp
next
  case (Cons k ks)
  have "plain (Obj (if c k then AList.delete k acc else acc))"
    using Cons.prems by (auto intro: plain_delete simp del: plain.simps)
  then have "plain (Obj (forInDelete ks c (if c k then AList.delete k acc else acc)))"
    by (rule Cons.IH)
  then show ?case by simp
qed

lemma plain_sanitizeFalsies: "plain (Obj kvs) \<Longrightarrow> plain (sanitizeFalsies (Obj kvs))"
  unfolding sanitizeFalsies_def Let_def
  by (auto intro!: plain_forInDelete plain_delete simp del: plain.simps)

lemma plain_props: "plain m \<Longrightarrow> plain (Obj (props m))"
  by (cases m) auto

lemma plain_andMask: "plain r \<Longrightarrow> plain n \<Longrightarrow> plain (andMask r n)"
proof (induction "size r + size n" arbitrary: r n rule: less_induct)
  case less
  have IH: "plain (andMask x y)" if "size x + size y < size r + size n" "plain x" "plain y" for x y
    using less.hyps [OF that] .
  show ?case
  proof (cases "r = JBool True")
    case True
    then show ?thesis using less.prems by (simp add: andMask_True1)
  next
    case rT: False
    show ?thesis
    proof (cases "n = JBool True")
      case True
      then show ?thesis using rT less.prems by (simp add: andMask_True2)
    next
      case nT: False
      show ?thesis
      proof (cases "isScalar r \<or> isScalar n")
        case True
        then show ?thesis using rT nT by (simp add: andMask_scalar)
      next
        case False
        have a: "plain (andMask (getKey r x) (getKey n y))" if "hasKey y n" for x y
          using that less.prems
          by (intro IH size_pair_right plain_getKey) (simp_all add: hasKey_keysOf)
        have b: "plain (andMask (getKey r x) (getKey n y))" if "hasKey x r" for x y
          using that less.prems
          by (intro IH size_pair_left plain_getKey) (simp_all add: hasKey_keysOf)
        have c: "plain (andMask (getKey n y) (getKey r x))" if "hasKey y n" for x y
          using that less.prems size_pair_right [of y n r x]
          by (intro IH plain_getKey) (simp_all add: hasKey_keysOf add.commute)
        have [simp]: "plain (JBool False)" by simp
        have "plain (Obj (andMerged r n))"
          unfolding andMerged_def Let_def
          using less.prems a b c
          by (auto intro!: plain_update plain_delete plain_forInSet plain_props
              simp: hasKey_keysOf simp del: plain.simps split: if_splits)
        then have "plain (sanitizeFalsies (Obj (andMerged r n)))" by (rule plain_sanitizeFalsies)
        then show ?thesis using False by (simp add: andMask_nonscalar)
      qed
    qed
  qed
qed

lemma andMask_never_empty:
  "\<not> isScalar r \<Longrightarrow> \<not> isScalar n \<Longrightarrow>
   andMask r n = JBool False \<or> (\<not> isScalar (andMask r n) \<and> keysOf (andMask r n) \<noteq> [])"
  using sanitizeFalsies_cases [of "andMerged r n"]
  by (auto simp: andMask_nonscalar)

lemma andMasks_two:
  assumes "plain (mask_tree m1)" "plain (mask_tree m2)"
  shows "mask_tree (andMasks [IsObjectMask m1, IsObjectMask m2]) =
         (if mask_tree m1 = JBool False then JBool False
          else orFalse (andMask (mask_tree m1) (mask_tree m2)))"
proof -
  have p: "plain (andMask (mask_tree m1) (mask_tree m2))" using assms by (rule plain_andMask)
  have q: "plain (orFalse (andMask (mask_tree m1) (mask_tree m2)))"
    using p by (simp add: orFalse_def)
  show ?thesis
    using newObjectMask_plain [OF q]
    by (auto simp: andMasks_def andMask_True1 Let_def newObjectMask_plain orFalse_def)
qed

text \<open>
  The intersection reading of \<open>andMasks\<close> (C2), where the source reads own keys: for two
  valid masks whose trees are built of objects with no key inherited from
  \<open>Object.prototype\<close>, and a path with no wildcard segment and no such segment, the
  intersection allows the path exactly when both operands allow it. When both operands
  are maps, the intersection is \<open>false\<close> or a map with at least one key: a map left
  without keys has collapsed to \<open>false\<close>. On a key or segment such as \<open>toString\<close> the
  source departs from this reading: \<open>'toString' in {_: true}\<close> is true there, so the mask
  \<open>{_: true}\<close> refuses the path \<open>toString\<close> and \<open>andMask\<close> leaves a key \<open>toString\<close> of the
  other operand as it is.
\<close>

theorem andMasks_intersection:
  assumes "plain (mask_tree m1)" "plain (mask_tree m2)" "validate m1" "validate m2"
    and "''_'' \<notin> set (splitDot p)"
    and "protoFree (mask_tree m1)" "protoFree (mask_tree m2)" "pathFree p"
  shows "(checkPath (andMasks [IsObjectMask m1, IsObjectMask m2]) p \<longleftrightarrow>
            checkPath m1 p \<and> checkPath m2 p) \<and>
         (\<not> isScalar (mask_tree m1) \<and> \<not> isScalar (mask_tree m2) \<longrightarrow>
            mask_tree (andMasks [IsObjectMask m1, IsObjectMask m2]) = JBool False \<or>
            keysOf (mask_tree (andMasks [IsObjectMask m1, IsObjectMask m2])) \<noteq> [])"
proof -
  let ?t1 = "mask_tree m1" and ?t2 = "mask_tree m2"
  have t: "mask_tree (andMasks [IsObjectMask m1, IsObjectMask m2]) =
         (if ?t1 = JBool False then JBool False else orFalse (andMask ?t1 ?t2))"
    using assms(1,2) by (rule andMasks_two)
  have s: "getSubMaskLoop (andMask ?t1 ?t2) (splitDot p) = JBool True \<longleftrightarrow>
     getSubMaskLoop ?t1 (splitDot p) = JBool True \<and> getSubMaskLoop ?t2 (splitDot p) = JBool True"
    using assms(3,4,5) by (intro andMask_sem) (simp_all add: validate_def)
  have o: "getSubMaskLoop (orFalse x) ps = JBool True \<longleftrightarrow> getSubMaskLoop x ps = JBool True" for x ps
    using getSubMaskLoop_falsy [of x ps] getSubMaskLoop_falsy [of "JBool False" ps]
    by (auto simp: orFalse_def)
  have f: "getSubMaskLoop (JBool False) ps \<noteq> JBool True" for ps
    using getSubMaskLoop_falsy [of "JBool False" ps] by simp
  have one: "checkPath (andMasks [IsObjectMask m1, IsObjectMask m2]) p \<longleftrightarrow>
            checkPath m1 p \<and> checkPath m2 p"
    unfolding checkPath_iff t using s o f by auto
  have two: "mask_tree (andMasks [IsObjectMask m1, IsObjectMask m2]) = JBool False \<or>
            keysOf (mask_tree (andMasks [IsObjectMask m1, IsObjectMask m2])) \<noteq> []"
    if "\<not> isScalar ?t1" "\<not> isScalar ?t2"
  proof -
    from andMask_never_empty [OF that]
    have "orFalse (andMask ?t1 ?t2) = JBool False \<or> keysOf (orFalse (andMask ?t1 ?t2)) \<noteq> []"
      by (cases "andMask ?t1 ?t2") (auto simp: orFalse_def)
    then show ?thesis unfolding t using that by auto
  qed
  show ?thesis using one two by blast
qed

theorem andMasks_intersection_witness:
  "validate \<lparr> mask_tree = Obj [(''a'', JBool True), (''_'', Obj [(''x'', JBool True)])] \<rparr> \<and>
   validate \<lparr> mask_tree = Obj [(''b'', Obj [(''x'', JBool True), (''y'', JBool True)])] \<rparr> \<and>
   checkPath (andMasks
     [IsObjectMask \<lparr> mask_tree = Obj [(''a'', JBool True), (''_'', Obj [(''x'', JBool True)])] \<rparr>,
      IsObjectMask \<lparr> mask_tree = Obj [(''b'', Obj [(''x'', JBool True), (''y'', JBool True)])] \<rparr>]) ''b.x'' \<and>
   \<not> checkPath (andMasks
     [IsObjectMask \<lparr> mask_tree = Obj [(''a'', JBool True), (''_'', Obj [(''x'', JBool True)])] \<rparr>,
      IsObjectMask \<lparr> mask_tree = Obj [(''b'', Obj [(''x'', JBool True), (''y'', JBool True)])] \<rparr>]) ''a'' \<and>
   mask_tree (andMasks [IsObjectMask \<lparr> mask_tree = Obj [(''a'', JBool True)] \<rparr>,
      IsObjectMask \<lparr> mask_tree = Obj [(''b'', JBool True)] \<rparr>]) = JBool False"
proof -
  let ?m1 = "\<lparr> mask_tree = Obj [(''a'', JBool True), (''_'', Obj [(''x'', JBool True)])] \<rparr>"
  let ?m2 = "\<lparr> mask_tree = Obj [(''b'', Obj [(''x'', JBool True), (''y'', JBool True)])] \<rparr>"
  have v: "validate ?m1" "validate ?m2"
    by (simp_all add: validate_def valWhitelist.simps key_eval)
  have f: "protoFree (mask_tree ?m1)" "protoFree (mask_tree ?m2)" "pathFree ''b.x''" "pathFree ''a''"
    by (simp_all add: pathFree_def protoNames_def)
  have c: "checkPath ?m1 ''b.x''" "checkPath ?m2 ''b.x''" "\<not> checkPath ?m2 ''a''"
    by (simp_all add: checkPath_iff key_eval)
  have "checkPath (andMasks [IsObjectMask ?m1, IsObjectMask ?m2]) ''b.x''"
    using andMasks_intersection [of ?m1 ?m2 "''b.x''"] v c f by simp
  moreover have "\<not> checkPath (andMasks [IsObjectMask ?m1, IsObjectMask ?m2]) ''a''"
    using andMasks_intersection [of ?m1 ?m2 "''a''"] v c f by simp
  moreover have "mask_tree (andMasks [IsObjectMask \<lparr> mask_tree = Obj [(''a'', JBool True)] \<rparr>,
      IsObjectMask \<lparr> mask_tree = Obj [(''b'', JBool True)] \<rparr>]) = JBool False"
    by (simp add: andMasks_two andMask_nonscalar andMerged_def Let_def key_eval
        sanitizeFalsies_def)
  ultimately show ?thesis using v by simp
qed


section \<open>Dotted and structured form\<close>

text \<open>
  The dotted path of a position: the keys on the way, joined as \<open>filterDeep\<close> and
  \<open>collapseToDotted\<close> join them (\<open>path ? path + '.' + key : key\<close>).
\<close>

definition joinDot :: "string list \<Rightarrow> string" where
  "joinDot ps = foldl subPath [] ps"

definition keyOK :: "string \<Rightarrow> bool" where
  "keyOK k \<longleftrightarrow> k \<noteq> [] \<and> CHR ''.'' \<notin> set k"

text \<open>
  A value whose object keys are non-empty and free of dots, and distinct within each
  object: the values whose positions and dotted paths correspond one to one.
\<close>

fun dottable :: "jsval \<Rightarrow> bool" where
  "dottable (Obj kvs) = (distinct (map fst kvs) \<and> list_all (\<lambda>(k, v). keyOK k \<and> dottable v) kvs)"
| "dottable (Arr xs) = list_all dottable xs"
| "dottable v = True"

text \<open>The positions of the leaves of a value, as \<open>addObj\<close> visits them.\<close>

function leaves :: "jsval \<Rightarrow> string list list" where
  "leaves v =
     (if isScalar v then [[]]
      else concat (map (\<lambda>(k, c). map ((#) k) (leaves c)) (props v)))"
  by pat_completeness auto
termination
  by (relation "measure size") (auto dest: size_props_less)

declare leaves.simps [simp del]

text \<open>The positions at which \<open>filterDeep\<close> calls the hook.\<close>

function outs :: "jsval \<Rightarrow> jsval \<Rightarrow> string list list" where
  "outs v m =
     (if m = JBool True then []
      else if truthy m \<and> \<not> isScalar v \<and> \<not> isScalar m
        then concat (map (\<lambda>(k, c). map ((#) k) (outs c (stepMask m k))) (props v))
      else [[]])"
  by pat_completeness auto
termination
  by (relation "measure (\<lambda>(v, m). size v)") (auto dest: size_props_less)

declare outs.simps [simp del]

lemma joinDot_Nil [simp]: "joinDot [] = []"
  by (simp add: joinDot_def)

lemma joinDot_snoc: "joinDot (ps @ [k]) = subPath (joinDot ps) k"
  by (simp add: joinDot_def)

lemma joinDot_empty: "list_all keyOK ps \<Longrightarrow> joinDot ps = [] \<longleftrightarrow> ps = []"
  by (induction ps rule: rev_induct) (auto simp: joinDot_snoc subPath_def keyOK_def)

lemma splitDot_key: "CHR ''.'' \<notin> set k \<Longrightarrow> splitDot k = [k]"
  by (induction k) (auto split: list.splits)

lemma splitDot_snoc: "CHR ''.'' \<notin> set k \<Longrightarrow> splitDot (p @ ''.'' @ k) = splitDot p @ [k]"
  by (induction p) (auto simp: splitDot_key split: list.splits)

lemma splitDot_joinDot: "list_all keyOK ps \<Longrightarrow> ps \<noteq> [] \<Longrightarrow> splitDot (joinDot ps) = ps"
proof (induction ps rule: rev_induct)
  case Nil
  then show ?case by simp
next
  case (snoc k ps)
  from snoc.prems(1) have ok: "list_all keyOK ps" and kk: "keyOK k" by simp_all
  from kk have k: "CHR ''.'' \<notin> set k" by (simp add: keyOK_def)
  show ?case
  proof (cases "ps = []")
    case True
    then show ?thesis using k joinDot_snoc [of "[]" k] by (simp add: subPath_def splitDot_key)
  next
    case False
    then have "joinDot ps \<noteq> []" using ok by (simp add: joinDot_empty)
    then show ?thesis using k snoc.IH [OF ok False] splitDot_snoc [of k "joinDot ps"]
      by (simp add: joinDot_snoc subPath_def)
  qed
qed

text \<open>The keys of a sequence are distinct, non-empty and free of dots.\<close>

lemma digit_inj: "a < 10 \<Longrightarrow> b < 10 \<Longrightarrow> digit a = digit b \<Longrightarrow> a = b"
  unfolding digit_def by (subst (asm) nth_eq_iff_index_eq) auto

lemma showNat_nonempty: "showNat n \<noteq> []"
  using isIndexKey_showNat [of n] by (simp add: isIndexKey_def)

lemma showNat_inj: "showNat a = showNat b \<Longrightarrow> a = b"
proof (induction a arbitrary: b rule: showNat.induct)
  case (1 a)
  show ?case
  proof (cases "a < 10")
    case a: True
    show ?thesis
    proof (cases "b < 10")
      case True
      then show ?thesis using a "1.prems" digit_inj [of a b]
        by (simp add: showNat.simps [of a] showNat.simps [of b])
    next
      case False
      then show ?thesis using a "1.prems" showNat_nonempty [of "b div 10"]
        by (simp add: showNat.simps [of a] showNat.simps [of b])
    qed
  next
    case a: False
    show ?thesis
    proof (cases "b < 10")
      case True
      then show ?thesis using a "1.prems" showNat_nonempty [of "a div 10"]
        by (simp add: showNat.simps [of a] showNat.simps [of b])
    next
      case False
      then have "showNat (a div 10) = showNat (b div 10)" "digit (a mod 10) = digit (b mod 10)"
        using a "1.prems" by (simp_all add: showNat.simps [of a] showNat.simps [of b])
      then have "a div 10 = b div 10" "a mod 10 = b mod 10"
        using "1.IH" [OF a] digit_inj [of "a mod 10" "b mod 10"] by auto
      then show ?thesis by (metis div_mult_mod_eq)
    qed
  qed
qed

lemma distinct_arrKeys: "distinct (arrKeys xs)"
  unfolding arrKeys_def by (auto simp: distinct_map inj_on_def dest: showNat_inj)

lemma keyOK_index:
  assumes "isIndexKey k"
  shows "keyOK k"
proof -
  have d: "CHR ''.'' \<notin> set ''0123456789''" by simp
  have "\<forall>c \<in> set k. c \<in> set ''0123456789''"
    using assms unfolding isIndexKey_def list_all_iff by (rule conjunct2)
  then have "CHR ''.'' \<notin> set k" using d by blast
  moreover have "k \<noteq> []" using assms unfolding isIndexKey_def by (rule conjunct1)
  ultimately show ?thesis unfolding keyOK_def by (rule conjI [rotated])
qed

lemma length_arrKeys [simp]: "length (arrKeys xs) = length xs"
  by (simp add: arrKeys_def)

lemma dottable_props:
  assumes "dottable v"
  shows "distinct (map fst (props v))"
    and "(k, c) \<in> set (props v) \<Longrightarrow> keyOK k \<and> dottable c"
proof -
  show "distinct (map fst (props v))"
    using assms by (cases v) (auto simp: distinct_arrKeys)
  show "keyOK k \<and> dottable c" if "(k, c) \<in> set (props v)"
  proof (cases v)
    case (Arr xs)
    then have "k \<in> set (arrKeys xs)" "c \<in> set xs"
      using that by (auto dest: set_zip_leftD set_zip_rightD)
    then show ?thesis using assms Arr by (auto simp: list_all_iff keyOK_index arrKeys_index)
  next
    case (Obj kvs)
    then show ?thesis using assms that by (auto simp: list_all_iff)
  qed (use that in auto)
qed


text \<open>The recursion of \<open>leaves\<close> and \<open>outs\<close>, as sets.\<close>

lemma leaves_scalar: "isScalar v \<Longrightarrow> leaves v = [[]]"
  by (simp add: leaves.simps)

lemma set_leaves:
  "\<not> isScalar v \<Longrightarrow> qs \<in> set (leaves v) \<longleftrightarrow>
     (\<exists>k c qs'. (k, c) \<in> set (props v) \<and> qs' \<in> set (leaves c) \<and> qs = k # qs')"
  by (subst leaves.simps) auto

lemma outs_True: "outs v (JBool True) = []"
  by (simp add: outs.simps)

lemma outs_stop:
  "m \<noteq> JBool True \<Longrightarrow> \<not> (truthy m \<and> \<not> isScalar v \<and> \<not> isScalar m) \<Longrightarrow> outs v m = [[]]"
  by (subst outs.simps) auto

lemma outs_rec:
  "truthy m \<Longrightarrow> \<not> isScalar v \<Longrightarrow> \<not> isScalar m \<Longrightarrow>
   outs v m = concat (map (\<lambda>(k, c). map ((#) k) (outs c (stepMask m k))) (props v))"
  by (subst outs.simps) auto

lemma set_outs_rec:
  "truthy m \<Longrightarrow> \<not> isScalar v \<Longrightarrow> \<not> isScalar m \<Longrightarrow>
   r \<in> set (outs v m) \<longleftrightarrow>
     (\<exists>k c r'. (k, c) \<in> set (props v) \<and> r' \<in> set (outs c (stepMask m k)) \<and> r = k # r')"
  by (auto simp: outs_rec)

lemma leaves_keyOK: "dottable v \<Longrightarrow> qs \<in> set (leaves v) \<Longrightarrow> list_all keyOK qs"
proof (induction qs arbitrary: v)
  case Nil
  then show ?case by simp
next
  case (Cons k qs)
  have ns: "\<not> isScalar v" using Cons.prems(2) by (auto simp: leaves_scalar)
  then obtain c where c: "(k, c) \<in> set (props v)" "qs \<in> set (leaves c)"
    using Cons.prems(2) by (auto simp: set_leaves)
  then have "keyOK k" "dottable c" using dottable_props(2) [OF Cons.prems(1)] by auto
  then show ?case using Cons.IH [of c] c by simp
qed

lemma outs_keyOK: "dottable v \<Longrightarrow> r \<in> set (outs v m) \<Longrightarrow> list_all keyOK r"
proof (induction r arbitrary: v m)
  case Nil
  then show ?case by simp
next
  case (Cons k r)
  have mT: "m \<noteq> JBool True" using Cons.prems(2) by (auto simp: outs_True)
  have rec: "truthy m \<and> \<not> isScalar v \<and> \<not> isScalar m"
    using Cons.prems(2) mT by (rule_tac ccontr) (simp add: outs_stop)
  then obtain c where c: "(k, c) \<in> set (props v)" "r \<in> set (outs c (stepMask m k))"
    using Cons.prems(2) by (auto simp: set_outs_rec)
  then have "keyOK k" "dottable c" using dottable_props(2) [OF Cons.prems(1)] by auto
  then show ?case using Cons.IH [of c "stepMask m k"] c by simp
qed

text \<open>A leaf is refused by the mask exactly when the hook is called at it or above it.\<close>

lemma getSubMaskLoop_orFalse:
  "getSubMaskLoop (orFalse x) ps = JBool True \<longleftrightarrow> getSubMaskLoop x ps = JBool True"
  using getSubMaskLoop_falsy [of x ps] getSubMaskLoop_falsy [of "JBool False" ps]
  by (auto simp: orFalse_def)

lemma outs_leaf:
  "dottable v \<Longrightarrow> qs \<in> set (leaves v) \<Longrightarrow>
   getSubMaskLoop m qs \<noteq> JBool True \<longleftrightarrow> (\<exists>r \<in> set (outs v m). prefix r qs)"
proof (induction qs arbitrary: v m)
  case Nil
  have "isScalar v" using Nil.prems(2) by (rule_tac ccontr) (simp add: set_leaves)
  then show ?case by (cases "m = JBool True") (auto simp: outs_True outs_stop)
next
  case (Cons k qs)
  have ns: "\<not> isScalar v" using Cons.prems(2) by (auto simp: leaves_scalar)
  then obtain c where c: "(k, c) \<in> set (props v)" "qs \<in> set (leaves c)"
    using Cons.prems(2) by (auto simp: set_leaves)
  have dc: "dottable c" using dottable_props(2) [OF Cons.prems(1) c(1)] by simp
  have uniq: "c' = c" if "(k, c') \<in> set (props v)" for c'
    using dottable_props(1) [OF Cons.prems(1)] c(1) that by (meson eq_key_imp_eq_value)
  show ?case
  proof (cases "m = JBool True")
    case True
    then show ?thesis by (simp add: outs_True)
  next
    case mT: False
    show ?thesis
    proof (cases "truthy m \<and> \<not> isScalar m")
      case True
      then have rec: "truthy m" "\<not> isScalar v" "\<not> isScalar m" using ns by auto
      have "(\<exists>r \<in> set (outs v m). prefix r (k # qs)) \<longleftrightarrow>
            (\<exists>r' \<in> set (outs c (stepMask m k)). prefix r' qs)" (is "?L \<longleftrightarrow> ?R")
      proof
        assume ?L
        then obtain r where r: "r \<in> set (outs v m)" "prefix r (k # qs)" by blast
        from r(1) obtain k' c' r' where
          r': "(k', c') \<in> set (props v)" "r' \<in> set (outs c' (stepMask m k'))" "r = k' # r'"
          unfolding set_outs_rec [OF rec] by blast
        from r(2) r'(3) have e: "k' = k" "prefix r' qs" by simp_all
        from r'(1) e(1) have "c' = c" using uniq [of c'] by simp
        then show ?R using r'(2) e by blast
      next
        assume ?R
        then obtain r' where r': "r' \<in> set (outs c (stepMask m k))" "prefix r' qs" by blast
        from r'(1) c(1) have "k # r' \<in> set (outs v m)"
          unfolding set_outs_rec [OF rec] by blast
        moreover have "prefix (k # r') (k # qs)" using r'(2) by simp
        ultimately show ?L by blast
      qed
      also have "\<dots> \<longleftrightarrow> getSubMaskLoop (stepMask m k) qs \<noteq> JBool True"
        using Cons.IH [OF dc c(2), of "stepMask m k"] by simp
      also have "\<dots> \<longleftrightarrow> getSubMaskLoop m (k # qs) \<noteq> JBool True"
        using rec(3) by (simp add: stepMask_def getSubMaskLoop_orFalse)
      finally show ?thesis by simp
    next
      case False
      then have o: "outs v m = [[]]" using mT by (simp add: outs_stop)
      have "isScalar m" using False falsy_isScalar [of m] by auto
      then have "getSubMaskLoop m (k # qs) = m" by (rule getSubMaskLoop_scalar)
      then show ?thesis using mT o by simp
    qed
  qed
qed


text \<open>The keys of the collapsed form are the dotted paths of the leaves.\<close>

lemma addObj_scalar:
  "isScalar v \<Longrightarrow> addObj v path False False res = AList.update path v res"
  by (subst addObj.simps) simp

lemma addObj_rec:
  "\<not> isScalar v \<Longrightarrow> addObj v path False False res =
     fold (\<lambda>(key, child) r. addObj child (subPath path key) False False r) (props v) res"
  by (subst addObj.simps) (simp add: subPath_def)

lemma keys_addObj:
  "fst ` set (addObj v (joinDot ps) False False res) =
     fst ` set res \<union> (\<lambda>qs. joinDot (ps @ qs)) ` set (leaves v)"
proof (induction "size v" arbitrary: v ps res rule: less_induct)
  case less
  show ?case
  proof (cases "isScalar v")
    case True
    then show ?thesis by (simp add: addObj_scalar leaves_scalar dom_update)
  next
    case False
    have step: "fst ` set (fold (\<lambda>(key, child) r. addObj child (subPath (joinDot ps) key) False False r) kcs res) =
        fst ` set res \<union> (\<Union>(k, c) \<in> set kcs. (\<lambda>qs. joinDot (ps @ k # qs)) ` set (leaves c))"
      if "set kcs \<subseteq> set (props v)" for kcs res
      using that
    proof (induction kcs arbitrary: res)
      case Nil
      then show ?case by simp
    next
      case (Cons kc kcs)
      obtain k c where kc: "kc = (k, c)" by (cases kc)
      have "(k, c) \<in> set (props v)" using Cons.prems kc by simp
      then have "size c < size v" by (rule size_props_less)
      then have one: "fst ` set (addObj c (joinDot (ps @ [k])) False False res) =
          fst ` set res \<union> (\<lambda>qs. joinDot ((ps @ [k]) @ qs)) ` set (leaves c)"
        by (rule less.hyps)
      have sub: "set kcs \<subseteq> set (props v)" using Cons.prems by simp
      show ?case
        unfolding kc using Cons.IH [OF sub, of "addObj c (joinDot (ps @ [k])) False False res"] one
        by (simp add: joinDot_snoc Un_assoc)
    qed
    have "set (leaves v) = (\<Union>(k, c) \<in> set (props v). (#) k ` set (leaves c))"
      using False by (subst leaves.simps) auto
    then have "(\<lambda>qs. joinDot (ps @ qs)) ` set (leaves v) =
        (\<Union>(k, c) \<in> set (props v). (\<lambda>qs. joinDot (ps @ k # qs)) ` set (leaves c))"
      by (auto simp: image_UN image_image)
    then show ?thesis using False step [of "props v" res] by (simp add: addObj_rec)
  qed
qed

lemma keys_collapseToDotted:
  assumes "dottable v"
  shows "set (keysOf (collapseToDotted v False False)) =
         (if isScalar v then {} else joinDot ` set (leaves v))"
proof (cases "isScalar v")
  case True
  then show ?thesis by (simp add: collapseToDotted_def keysOf_def)
next
  case False
  have "joinDot qs \<noteq> []" if "qs \<in> set (leaves v)" for qs
  proof -
    have "qs \<noteq> []" using that False by (auto simp: set_leaves)
    then show ?thesis using leaves_keyOK [OF assms that] by (simp add: joinDot_empty)
  qed
  then have "[] \<notin> joinDot ` set (leaves v)" by force
  moreover have "fst ` set (addObj v [] False False []) = joinDot ` set (leaves v)"
    using keys_addObj [of v "[]" "[]"] by simp
  ultimately have "AList.delete [] (addObj v [] False False []) = addObj v [] False False []"
    by simp
  then show ?thesis
    using False \<open>fst ` set (addObj v [] False False []) = joinDot ` set (leaves v)\<close>
    by (simp add: collapseToDotted_def keysOf_def)
qed

text \<open>The hook is called with the dotted paths of the positions of \<open>outs\<close>.\<close>

lemma filterDeep_snd_rec:
  assumes "truthy m" "\<not> isScalar obj" "\<not> isScalar m"
  shows "snd (filterDeep obj m path) =
     concat (map (\<lambda>(key, child). snd (filterDeep child (stepMask m key) (subPath path key)))
               (props obj))"
proof -
  have "m \<noteq> JBool True" using assms(3) by auto
  then show ?thesis
    using assms
    by (subst filterDeep.simps)
      (simp add: Let_def stepMask_def subPath_def comp_def case_prod_unfold)
qed

lemma hooks_filterDeep:
  "snd (filterDeep v m (joinDot ps)) = map (\<lambda>qs. joinDot (ps @ qs)) (outs v m)"
proof (induction "size v" arbitrary: v m ps rule: less_induct)
  case less
  show ?case
  proof (cases "m = JBool True")
    case True
    then show ?thesis by (simp add: filterDeep.simps outs_True)
  next
    case mT: False
    show ?thesis
    proof (cases "truthy m \<and> \<not> isScalar v \<and> \<not> isScalar m")
      case True
      then have rec: "truthy m" "\<not> isScalar v" "\<not> isScalar m" by auto
      have "snd (filterDeep c (stepMask m k) (subPath (joinDot ps) k)) =
            map (\<lambda>qs. joinDot (ps @ qs)) (map ((#) k) (outs c (stepMask m k)))"
        if "(k, c) \<in> set (props v)" for k c
      proof -
        have "size c < size v" using that by (rule size_props_less)
        then have "snd (filterDeep c (stepMask m k) (joinDot (ps @ [k]))) =
            map (\<lambda>qs. joinDot ((ps @ [k]) @ qs)) (outs c (stepMask m k))"
          by (rule less.hyps)
        then show ?thesis by (simp add: joinDot_snoc comp_def)
      qed
      then have eq: "map (\<lambda>(key, child). snd (filterDeep child (stepMask m key) (subPath (joinDot ps) key))) (props v)
          = map (\<lambda>(k, c). map (\<lambda>qs. joinDot (ps @ qs)) (map ((#) k) (outs c (stepMask m k)))) (props v)"
        by (intro map_cong refl) auto
      show ?thesis
        unfolding filterDeep_snd_rec [OF rec] outs_rec [OF rec] eq
        by (simp add: map_concat comp_def case_prod_unfold)
    next
      case False
      then show ?thesis using mT by (simp add: filterDeep_out outs_stop)
    qed
  qed
qed


lemma hook_above_iff:
  assumes "dottable v" "list_all keyOK qs" "qs \<noteq> []"
  shows "(\<exists>p \<in> set (getMaskedOutFields this v). p = [] \<or> prefix (splitDot p) (splitDot (joinDot qs)))
         \<longleftrightarrow> (\<exists>r \<in> set (outs v (mask_tree this)). prefix r qs)" (is "?L \<longleftrightarrow> ?R")
proof -
  have g: "getMaskedOutFields this v = map joinDot (outs v (mask_tree this))"
    using hooks_filterDeep [of v "mask_tree this" "[]"] by (simp add: getMaskedOutFields_def)
  have q: "splitDot (joinDot qs) = qs" using assms(2,3) by (rule splitDot_joinDot)
  show ?thesis
  proof
    assume ?L
    then obtain r where r: "r \<in> set (outs v (mask_tree this))"
      "joinDot r = [] \<or> prefix (splitDot (joinDot r)) qs"
      unfolding g q by auto
    have ok: "list_all keyOK r" using assms(1) r(1) by (rule outs_keyOK)
    have "prefix r qs"
    proof (cases "r = []")
      case True
      then show ?thesis by simp
    next
      case False
      then have "joinDot r \<noteq> []" "splitDot (joinDot r) = r"
        using ok by (simp_all add: joinDot_empty splitDot_joinDot)
      then show ?thesis using r(2) by simp
    qed
    then show ?R using r(1) by blast
  next
    assume ?R
    then obtain r where r: "r \<in> set (outs v (mask_tree this))" "prefix r qs" by blast
    have ok: "list_all keyOK r" using assms(1) r(1) by (rule outs_keyOK)
    have "joinDot r = [] \<or> prefix (splitDot (joinDot r)) qs"
    proof (cases "r = []")
      case True
      then show ?thesis by simp
    next
      case False
      then have "splitDot (joinDot r) = r" using ok by (simp add: splitDot_joinDot)
      then show ?thesis using r(2) by simp
    qed
    then show ?L unfolding g q using r(1) by auto
  qed
qed

text \<open>
  The structured filter drops a property whose filtered value is \<open>undefined\<close>, so a
  property that holds \<open>undefined\<close> is dropped even where the mask allows it; and it
  pushes the kept elements of a sequence, which renumbers them. The two results are
  compared on values that have neither: \<open>plain\<close> values (objects only) with no
  \<open>undefined\<close> property.
\<close>

fun noUndefined :: "jsval \<Rightarrow> bool" where
  "noUndefined (Obj kvs) = list_all (\<lambda>(k, v). v \<noteq> Undefined \<and> noUndefined v) kvs"
| "noUndefined (Arr xs) = list_all (\<lambda>v. v \<noteq> Undefined \<and> noUndefined v) xs"
| "noUndefined v = True"

text \<open>The leaves of a value with their positions, as \<open>addObj\<close> visits them.\<close>

function leafVals :: "jsval \<Rightarrow> (string list \<times> jsval) list" where
  "leafVals v =
     (if isScalar v then [([], v)]
      else concat (map (\<lambda>(k, c). map (\<lambda>(qs, x). (k # qs, x)) (leafVals c)) (props v)))"
  by pat_completeness auto
termination
  by (relation "measure size") (auto dest: size_props_less)

declare leafVals.simps [simp del]

lemma leafVals_scalar: "isScalar v \<Longrightarrow> leafVals v = [([], v)]"
  by (simp add: leafVals.simps)

lemma leafVals_rec:
  "\<not> isScalar v \<Longrightarrow>
   leafVals v = concat (map (\<lambda>(k, c). map (\<lambda>(qs, x). (k # qs, x)) (leafVals c)) (props v))"
  by (subst leafVals.simps) simp

lemma map_fst_leafVals: "map fst (leafVals v) = leaves v"
proof (induction "size v" arbitrary: v rule: less_induct)
  case less
  show ?case
  proof (cases "isScalar v")
    case True
    then show ?thesis by (simp add: leafVals_scalar leaves_scalar)
  next
    case False
    have "map fst (map (\<lambda>(qs, x). (k # qs, x)) (leafVals c)) = map ((#) k) (leaves c)"
      if "(k, c) \<in> set (props v)" for k c
    proof -
      have "size c < size v" using that by (rule size_props_less)
      then have "map fst (leafVals c) = leaves c" by (rule less.hyps)
      then have "map ((#) k) (map fst (leafVals c)) = map ((#) k) (leaves c)" by simp
      then show ?thesis by (simp add: comp_def case_prod_unfold)
    qed
    then have eq: "map (\<lambda>(k, c). map fst (map (\<lambda>(qs, x). (k # qs, x)) (leafVals c))) (props v)
       = map (\<lambda>(k, c). map ((#) k) (leaves c)) (props v)"
      by (intro map_cong refl) auto
    have "map fst (leafVals v)
       = concat (map (\<lambda>(k, c). map fst (map (\<lambda>(qs, x). (k # qs, x)) (leafVals c))) (props v))"
      using False by (simp add: leafVals_rec map_concat comp_def case_prod_unfold)
    also have "\<dots> = concat (map (\<lambda>(k, c). map ((#) k) (leaves c)) (props v))"
      by (simp only: eq)
    also have "\<dots> = leaves v"
      using False by (subst leaves.simps) simp
    finally show ?thesis .
  qed
qed

text \<open>
  On a value whose positions and dotted paths correspond one to one, \<open>addObj\<close> appends
  one entry per leaf: no assignment \<open>result[path] = obj\<close> overwrites an earlier one.
\<close>

lemma update_fresh: "k \<notin> fst ` set res \<Longrightarrow> AList.update k v res = res @ [(k, v)]"
  by (induction res) auto

lemma joinDot_inj:
  assumes "list_all keyOK a" "list_all keyOK b" "joinDot a = joinDot b"
  shows "a = b"
proof (cases "a = []")
  case True
  then have "joinDot b = []" using assms(3) by simp
  then show ?thesis using True assms(2) by (simp add: joinDot_empty)
next
  case False
  then have "joinDot a \<noteq> []" using assms(1) by (simp add: joinDot_empty)
  then have b: "b \<noteq> []" using assms(3) by auto
  have "a = splitDot (joinDot a)" using splitDot_joinDot [OF assms(1) False] by simp
  also have "\<dots> = splitDot (joinDot b)" by (simp only: assms(3))
  also have "\<dots> = b" using assms(2) b by (rule splitDot_joinDot)
  finally show ?thesis .
qed

lemma addObj_leafVals:
  "dottable v \<Longrightarrow> list_all keyOK ps \<Longrightarrow>
   (\<And>qs. qs \<in> set (leaves v) \<Longrightarrow> joinDot (ps @ qs) \<notin> fst ` set res) \<Longrightarrow>
   addObj v (joinDot ps) False False res
     = res @ map (\<lambda>(qs, x). (joinDot (ps @ qs), x)) (leafVals v)"
proof (induction "size v" arbitrary: v ps res rule: less_induct)
  case less
  show ?case
  proof (cases "isScalar v")
    case True
    then show ?thesis
      using less.prems(3) [of "[]"]
      by (simp add: addObj_scalar leafVals_scalar leaves_scalar update_fresh)
  next
    case False
    have step: "fold (\<lambda>(key, child) r. addObj child (subPath (joinDot ps) key) False False r) kcs res
        = res @ concat (map (\<lambda>(k, c). map (\<lambda>(qs, x). (joinDot (ps @ k # qs), x)) (leafVals c)) kcs)"
      if "set kcs \<subseteq> set (props v)" "distinct (map fst kcs)"
         "\<And>k c qs. (k, c) \<in> set kcs \<Longrightarrow> qs \<in> set (leaves c) \<Longrightarrow>
            joinDot (ps @ k # qs) \<notin> fst ` set res" for kcs res
      using that
    proof (induction kcs arbitrary: res)
      case Nil
      then show ?case by simp
    next
      case (Cons kc kcs)
      obtain k c where kc: "kc = (k, c)" by (cases kc)
      have mem: "(k, c) \<in> set (props v)" using Cons.prems(1) kc by simp
      then have sz: "size c < size v" by (rule size_props_less)
      have dk: "keyOK k" "dottable c" using dottable_props(2) [OF less.prems(1) mem] by auto
      have psk: "list_all keyOK (ps @ [k])" using less.prems(2) dk(1) by simp
      let ?ents = "map (\<lambda>(qs, x). (joinDot ((ps @ [k]) @ qs), x)) (leafVals c)"
      have one: "addObj c (joinDot (ps @ [k])) False False res = res @ ?ents"
      proof (rule less.hyps [OF sz dk(2) psk])
        fix qs assume "qs \<in> set (leaves c)"
        then show "joinDot ((ps @ [k]) @ qs) \<notin> fst ` set res"
          using Cons.prems(3) [of k c qs] kc by simp
      qed
      have sub: "set kcs \<subseteq> set (props v)" using Cons.prems(1) by simp
      have dis: "distinct (map fst kcs)" using Cons.prems(2) by simp
      have fresh: "joinDot (ps @ k' # qs') \<notin> fst ` set (res @ ?ents)"
        if "(k', c') \<in> set kcs" "qs' \<in> set (leaves c')" for k' c' qs'
      proof
        assume "joinDot (ps @ k' # qs') \<in> fst ` set (res @ ?ents)"
        moreover have "joinDot (ps @ k' # qs') \<notin> fst ` set res"
          using Cons.prems(3) [of k' c' qs'] that by simp
        ultimately have "joinDot (ps @ k' # qs') \<in> fst ` set ?ents" by auto
        then obtain qs where qs: "qs \<in> set (leaves c)"
            "joinDot (ps @ k' # qs') = joinDot (ps @ k # qs)"
          unfolding map_fst_leafVals [symmetric] by force
        have mem': "(k', c') \<in> set (props v)" using sub that(1) by auto
        have dk': "keyOK k'" "dottable c'" using dottable_props(2) [OF less.prems(1) mem'] by auto
        have "list_all keyOK (ps @ k' # qs')"
          using less.prems(2) dk'(1) leaves_keyOK [OF dk'(2) that(2)] by simp
        moreover have "list_all keyOK (ps @ k # qs)"
          using less.prems(2) dk(1) leaves_keyOK [OF dk(2) qs(1)] by simp
        ultimately have "ps @ k' # qs' = ps @ k # qs" using qs(2) by (rule joinDot_inj)
        then have "k' = k" by simp
        moreover have "k \<notin> fst ` set kcs" using Cons.prems(2) kc by simp
        ultimately show False using that(1) by force
      qed
      show ?case
        unfolding kc using Cons.IH [OF sub dis, of "res @ ?ents"] fresh one
        by (simp add: joinDot_snoc)
    qed
    have fr: "joinDot (ps @ k # qs) \<notin> fst ` set res"
      if "(k, c) \<in> set (props v)" "qs \<in> set (leaves c)" for k c qs
      using less.prems(3) [of "k # qs"] that False by (auto simp: set_leaves)
    have "map (\<lambda>(qs, x). (joinDot (ps @ qs), x)) (leafVals v)
        = concat (map (\<lambda>(k, c). map (\<lambda>(qs, x). (joinDot (ps @ k # qs), x)) (leafVals c)) (props v))"
      using False by (simp add: leafVals_rec map_concat comp_def case_prod_unfold)
    then show ?thesis
      using False step [OF subset_refl dottable_props(1) [OF less.prems(1)] fr]
      by (simp add: addObj_rec)
  qed
qed

lemma collapseToDotted_leafVals:
  assumes "dottable v" "\<not> isScalar v"
  shows "collapseToDotted v False False = Obj (map (\<lambda>(qs, x). (joinDot qs, x)) (leafVals v))"
proof -
  have a: "addObj v [] False False [] = map (\<lambda>(qs, x). (joinDot qs, x)) (leafVals v)"
    using addObj_leafVals [OF assms(1), of "[]" "[]"] by simp
  have "joinDot qs \<noteq> []" if "qs \<in> set (leaves v)" for qs
  proof -
    have "qs \<noteq> []" using that assms(2) by (auto simp: set_leaves)
    then show ?thesis using leaves_keyOK [OF assms(1) that] by (simp add: joinDot_empty)
  qed
  then have "[] \<notin> joinDot ` set (leaves v)" by force
  moreover have "fst ` set (addObj v [] False False []) = joinDot ` set (leaves v)"
    using keys_addObj [of v "[]" "[]"] by simp
  ultimately have "AList.delete [] (addObj v [] False False []) = addObj v [] False False []"
    by simp
  then show ?thesis using assms(2) a by (simp add: collapseToDotted_def)
qed


text \<open>What \<open>filterDeep\<close> keeps of a value without sequences and without \<open>undefined\<close>.\<close>

lemma plain_child: "plain v \<Longrightarrow> (k, c) \<in> set (props v) \<Longrightarrow> plain c"
  by (cases v) (auto simp: list_all_iff)

lemma plain_not_array: "plain v \<Longrightarrow> \<not> isArray v"
  by (cases v) auto

lemma noUndefined_props:
  "noUndefined v \<Longrightarrow> plain v \<Longrightarrow> (k, c) \<in> set (props v) \<Longrightarrow> c \<noteq> Undefined \<and> noUndefined c"
  by (cases v) (auto simp: list_all_iff)

lemma filterDeep_Undefined_iff:
  assumes "v \<noteq> Undefined" "plain v"
  shows "fst (filterDeep v m p) = Undefined \<longleftrightarrow>
         m \<noteq> JBool True \<and> \<not> (truthy m \<and> \<not> isScalar v \<and> \<not> isScalar m)"
proof (cases "m = JBool True")
  case True
  then show ?thesis using assms(1) by (simp add: filterDeep_True)
next
  case mT: False
  show ?thesis
  proof (cases "truthy m \<and> \<not> isScalar v \<and> \<not> isScalar m")
    case True
    then show ?thesis
      using mT plain_not_array [OF assms(2)] by (simp add: filterDeep_fst_rec)
  next
    case False
    then show ?thesis using mT by (simp add: filterDeep_out)
  qed
qed

lemma concat_filter_map:
  "(\<And>x. x \<in> set xs \<Longrightarrow> (if Q (h x) then g (h x) else []) = filter P (g0 x)) \<Longrightarrow>
   concat (map g (filter Q (map h xs))) = filter P (concat (map g0 xs))"
proof (induction xs)
  case Nil
  show ?case by simp
next
  case (Cons a xs)
  have a: "(if Q (h a) then g (h a) else []) = filter P (g0 a)" by (rule Cons.prems) simp
  have ih: "concat (map g (filter Q (map h xs))) = filter P (concat (map g0 xs))"
    by (rule Cons.IH) (simp add: Cons.prems)
  show ?case using a ih by (cases "Q (h a)") simp_all
qed

lemma getSubMaskLoop_step:
  "\<not> isScalar m \<Longrightarrow>
   getSubMaskLoop m (k # qs) = JBool True \<longleftrightarrow> getSubMaskLoop (stepMask m k) qs = JBool True"
  by (simp add: stepMask_def getSubMaskLoop_orFalse)

lemma leafVals_filterDeep:
  "plain v \<Longrightarrow> noUndefined v \<Longrightarrow> v \<noteq> Undefined \<Longrightarrow>
   (if fst (filterDeep v m p) = Undefined then [] else leafVals (fst (filterDeep v m p)))
     = filter (\<lambda>(qs, x). getSubMaskLoop m qs = JBool True) (leafVals v)"
proof (induction "size v" arbitrary: v m p rule: less_induct)
  case less
  show ?case
  proof (cases "m = JBool True")
    case True
    then show ?thesis
      using less.prems(3) by (simp add: filterDeep_True getSubMaskLoop_scalar)
  next
    case mT: False
    show ?thesis
    proof (cases "truthy m \<and> \<not> isScalar v \<and> \<not> isScalar m")
      case False
      have "getSubMaskLoop m qs \<noteq> JBool True" if "(qs, x) \<in> set (leafVals v)" for qs x
      proof (cases "isScalar m")
        case True
        then show ?thesis using mT by (simp add: getSubMaskLoop_scalar)
      next
        case ns: False
        then have "truthy m" using falsy_isScalar [of m] by auto
        then have "isScalar v" using False ns by simp
        then have "qs = []" using that by (simp add: leafVals_scalar)
        then show ?thesis using mT by simp
      qed
      then have "filter (\<lambda>(qs, x). getSubMaskLoop m qs = JBool True) (leafVals v) = []"
        by (auto simp: filter_empty_conv)
      then show ?thesis using False mT by (simp add: filterDeep_out)
    next
      case True
      then have rec: "truthy m" "\<not> isScalar v" "\<not> isScalar m" by auto
      let ?F = "\<lambda>(key, child). (key, fst (filterDeep child (stepMask m key) (subPath p key)))"
      let ?g = "\<lambda>(k, c). map (\<lambda>(qs, x). (k # qs, x)) (leafVals c)"
      let ?P = "\<lambda>(qs, x). getSubMaskLoop m qs = JBool True"
      have f: "fst (filterDeep v m p)
          = Obj (filter (\<lambda>(k, v). v \<noteq> Undefined) (map ?F (props v)))"
        using plain_not_array [OF less.prems(1)] by (simp add: filterDeep_fst_rec [OF rec])
      have child: "(if (\<lambda>(k, v). v \<noteq> Undefined) (?F kc) then ?g (?F kc) else []) = filter ?P (?g kc)"
        if "kc \<in> set (props v)" for kc
      proof -
        obtain k c where kc: "kc = (k, c)" by (cases kc)
        have mem: "(k, c) \<in> set (props v)" using that kc by simp
        have sz: "size c < size v" using mem by (rule size_props_less)
        have pc: "plain c" using less.prems(1) mem by (rule plain_child)
        have nc: "c \<noteq> Undefined" "noUndefined c"
          using noUndefined_props [OF less.prems(2,1) mem] by simp_all
        let ?r = "fst (filterDeep c (stepMask m k) (subPath p k))"
        have ih: "(if ?r = Undefined then [] else leafVals ?r)
            = filter (\<lambda>(qs, x). getSubMaskLoop (stepMask m k) qs = JBool True) (leafVals c)"
          by (rule less.hyps [OF sz pc nc(2) nc(1)])
        have "filter ?P (?g kc)
            = map (\<lambda>(qs, x). (k # qs, x))
                (filter (\<lambda>(qs, x). getSubMaskLoop (stepMask m k) qs = JBool True) (leafVals c))"
          unfolding kc
          by (simp add: filter_map comp_def case_prod_unfold getSubMaskLoop_step [OF rec(3)]
                del: getSubMaskLoop.simps)
        also have "\<dots> = (if ?r = Undefined then [] else map (\<lambda>(qs, x). (k # qs, x)) (leafVals ?r))"
          unfolding ih [symmetric] by simp
        finally show ?thesis unfolding kc by simp
      qed
      have "leafVals (fst (filterDeep v m p))
          = concat (map ?g (filter (\<lambda>(k, v). v \<noteq> Undefined) (map ?F (props v))))"
        unfolding f by (subst leafVals.simps) simp
      also have "\<dots> = filter ?P (concat (map ?g (props v)))"
        using child by (rule concat_filter_map)
      also have "\<dots> = filter ?P (leafVals v)"
        using rec(2) by (simp add: leafVals_rec)
      finally show ?thesis unfolding f by simp
    qed
  qed
qed

lemma distinct_filter_map_keys:
  "distinct (map fst xs) \<Longrightarrow>
   distinct (map fst (filter Q (map (\<lambda>(k, c). (k, f k c)) xs)))"
proof (induction xs)
  case Nil
  then show ?case by simp
next
  case (Cons x xs)
  have "fst ` set (filter Q (map (\<lambda>(k, c). (k, f k c)) xs)) \<subseteq> fst ` set xs" by force
  then show ?case using Cons by (auto simp: case_prod_unfold)
qed

lemma dottable_filterDeep:
  "plain v \<Longrightarrow> dottable v \<Longrightarrow> dottable (fst (filterDeep v m p))"
proof (induction "size v" arbitrary: v m p rule: less_induct)
  case less
  show ?case
  proof (cases "m = JBool True")
    case True
    then show ?thesis using less.prems(2) by (simp add: filterDeep_True)
  next
    case mT: False
    show ?thesis
    proof (cases "truthy m \<and> \<not> isScalar v \<and> \<not> isScalar m")
      case False
      then show ?thesis using mT by (simp add: filterDeep_out)
    next
      case True
      then have rec: "truthy m" "\<not> isScalar v" "\<not> isScalar m" by auto
      let ?F = "\<lambda>(key, child). (key, fst (filterDeep child (stepMask m key) (subPath p key)))"
      have f: "fst (filterDeep v m p)
          = Obj (filter (\<lambda>(k, v). v \<noteq> Undefined) (map ?F (props v)))"
        using plain_not_array [OF less.prems(1)] by (simp add: filterDeep_fst_rec [OF rec])
      have d: "distinct (map fst (filter (\<lambda>(k, v). v \<noteq> Undefined) (map ?F (props v))))"
        using dottable_props(1) [OF less.prems(2)] by (rule distinct_filter_map_keys)
      have kr: "keyOK k \<and> dottable r"
        if "(k, r) \<in> set (filter (\<lambda>(k, v). v \<noteq> Undefined) (map ?F (props v)))" for k r
      proof -
        from that obtain c where c: "(k, c) \<in> set (props v)"
            "r = fst (filterDeep c (stepMask m k) (subPath p k))" by auto
        have "size c < size v" using c(1) by (rule size_props_less)
        moreover have "plain c" using less.prems(1) c(1) by (rule plain_child)
        moreover have "keyOK k" "dottable c" using dottable_props(2) [OF less.prems(2) c(1)] by auto
        ultimately show ?thesis using less.hyps [of c] c(2) by simp
      qed
      have all: "list_all (\<lambda>(k, v). keyOK k \<and> dottable v)
          (filter (\<lambda>(k, v). v \<noteq> Undefined) (map ?F (props v)))"
        unfolding list_all_iff
      proof (rule ballI)
        fix x assume "x \<in> set (filter (\<lambda>(k, v). v \<noteq> Undefined) (map ?F (props v)))"
        then show "case x of (k, v) \<Rightarrow> keyOK k \<and> dottable v"
          using kr [of "fst x" "snd x"] by (simp add: case_prod_unfold)
      qed
      show ?thesis unfolding f dottable.simps using d all by (rule conjI)
    qed
  qed
qed

text \<open>
  Filtering the collapsed form gives the collapsed form of the filtered value.
\<close>

lemma filterDotted_collapse:
  assumes "dottable v" "plain v" "noUndefined v"
  shows "fst (filterDottedObject this (collapseToDotted v False False))
         = collapseToDotted (filterObject this v) False False"
proof (cases "isScalar v")
  case True
  have "isScalar (filterObject this v)"
  proof (cases "mask_tree this = JBool True")
    case True
    then show ?thesis using \<open>isScalar v\<close> by (simp add: filterObject_def filterDeep_True)
  next
    case False
    then show ?thesis using \<open>isScalar v\<close> by (simp add: filterObject_def filterDeep_out)
  qed
  then show ?thesis using True by (simp add: collapseToDotted_def filterDottedObject_def)
next
  case False
  let ?m = "mask_tree this"
  let ?e = "\<lambda>(qs, x). (joinDot qs, x)"
  let ?P = "\<lambda>(qs, x). getSubMaskLoop ?m qs = JBool True"
  have vU: "v \<noteq> Undefined" using False by auto
  have cv: "collapseToDotted v False False = Obj (map ?e (leafVals v))"
    using assms(1) False by (rule collapseToDotted_leafVals)
  have chk: "checkPath this (joinDot qs) \<longleftrightarrow> getSubMaskLoop ?m qs = JBool True"
    if "(qs, x) \<in> set (leafVals v)" for qs x
  proof -
    have l: "qs \<in> set (leaves v)" using that unfolding map_fst_leafVals [symmetric] by force
    then have "qs \<noteq> []" using False by (auto simp: set_leaves)
    then have "splitDot (joinDot qs) = qs"
      using leaves_keyOK [OF assms(1) l] by (simp add: splitDot_joinDot)
    then show ?thesis by (simp add: checkPath_iff)
  qed
  have "filter (\<lambda>(key, x). checkPath this key) (map ?e (leafVals v))
      = map ?e (filter (\<lambda>(qs, x). checkPath this (joinDot qs)) (leafVals v))"
    by (simp add: filter_map comp_def case_prod_unfold)
  also have "filter (\<lambda>(qs, x). checkPath this (joinDot qs)) (leafVals v) = filter ?P (leafVals v)"
    using chk by (intro filter_cong refl) auto
  finally have lhs: "fst (filterDottedObject this (collapseToDotted v False False))
      = Obj (map ?e (filter ?P (leafVals v)))"
    unfolding cv by (simp add: filterDottedObject_def)
  let ?r = "filterObject this v"
  have k: "(if ?r = Undefined then [] else leafVals ?r) = filter ?P (leafVals v)"
    unfolding filterObject_def using assms(2,3) vU by (rule leafVals_filterDeep)
  show ?thesis
  proof (cases "?r = Undefined")
    case True
    then show ?thesis using k lhs by (simp add: collapseToDotted_def)
  next
    case rU: False
    have "\<not> isScalar ?r"
    proof (cases "?m = JBool True")
      case True
      then show ?thesis using False by (simp add: filterObject_def filterDeep_True)
    next
      case mT: False
      then have "truthy ?m \<and> \<not> isScalar v \<and> \<not> isScalar ?m"
        using rU filterDeep_Undefined_iff [OF vU assms(2), of ?m "[]"]
        by (simp add: filterObject_def)
      then show ?thesis
        using plain_not_array [OF assms(2)] by (simp add: filterObject_def filterDeep_fst_rec)
    qed
    moreover have "dottable ?r"
      unfolding filterObject_def using assms(2,1) by (rule dottable_filterDeep)
    ultimately have "collapseToDotted ?r False False = Obj (map ?e (leafVals ?r))"
      by (rule collapseToDotted_leafVals [rotated])
    then show ?thesis using k lhs rU by simp
  qed
qed

text \<open>
  C9 as stated fails in both halves. The two forms do not report the same paths: on the
  mask \<open>{foo: true}\<close> and the value \<open>{foo: 1, bar: {baz: 2}}\<close> the structured form
  reports \<open>bar\<close>, the highest level of the exclusion, and the dotted form reports the
  leaf \<open>bar.baz\<close>. The kept entries are not those of the structured result either: on
  the mask \<open>{a: true}\<close> and the value \<open>{a: undefined}\<close> the dotted filter keeps the
  entry \<open>a\<close> and \<open>filterObject\<close> drops the property; on the mask
  \<open>{a: {0: false, _: true}}\<close> and the value \<open>{a: [1, 2]}\<close> the dotted filter keeps
  \<open>a.1\<close>, and the second element is the first of the sequence \<open>filterObject\<close> returns.
  A key with a dot and an empty key are not found again by their dotted paths: the value
  \<open>{'a.b': 1}\<close> is kept whole by the mask \<open>{'a.b': true}\<close> and refused in dotted form;
  the empty key of \<open>{'': 1}\<close> is reported by the structured form and absent from the
  collapsed value.
\<close>

theorem dotted_forms_counterexample:
  "getMaskedOutFields \<lparr> mask_tree = Obj [(''foo'', JBool True)] \<rparr>
     (Obj [(''foo'', Num 1), (''bar'', Obj [(''baz'', Num 2)])]) = [''bar''] \<and>
   getDottedMaskedOutFields \<lparr> mask_tree = Obj [(''foo'', JBool True)] \<rparr>
     (collapseToDotted (Obj [(''foo'', Num 1), (''bar'', Obj [(''baz'', Num 2)])]) False False)
     = [''bar.baz''] \<and>
   set (getDottedMaskedOutFields \<lparr> mask_tree = Obj [(''foo'', JBool True)] \<rparr>
     (collapseToDotted (Obj [(''foo'', Num 1), (''bar'', Obj [(''baz'', Num 2)])]) False False))
     \<noteq> set (getMaskedOutFields \<lparr> mask_tree = Obj [(''foo'', JBool True)] \<rparr>
     (Obj [(''foo'', Num 1), (''bar'', Obj [(''baz'', Num 2)])])) \<and>
   fst (filterDottedObject \<lparr> mask_tree = Obj [(''a'', JBool True)] \<rparr>
     (collapseToDotted (Obj [(''a'', Undefined)]) False False)) = Obj [(''a'', Undefined)] \<and>
   filterObject \<lparr> mask_tree = Obj [(''a'', JBool True)] \<rparr> (Obj [(''a'', Undefined)]) = Obj [] \<and>
   fst (filterDottedObject
       \<lparr> mask_tree = Obj [(''a'', Obj [(''0'', JBool False), (''_'', JBool True)])] \<rparr>
       (collapseToDotted (Obj [(''a'', Arr [Num 1, Num 2])]) False False))
     = Obj [(''a.1'', Num 2)] \<and>
   filterObject \<lparr> mask_tree = Obj [(''a'', Obj [(''0'', JBool False), (''_'', JBool True)])] \<rparr>
       (Obj [(''a'', Arr [Num 1, Num 2])]) = Obj [(''a'', Arr [Num 2])] \<and>
   collapseToDotted (Obj [(''a'', Arr [Num 2])]) False False = Obj [(''a.0'', Num 2)] \<and>
   filterObject \<lparr> mask_tree = Obj [(''a.b'', JBool True)] \<rparr> (Obj [(''a.b'', Num 1)])
     = Obj [(''a.b'', Num 1)] \<and>
   filterDottedObject \<lparr> mask_tree = Obj [(''a.b'', JBool True)] \<rparr>
       (collapseToDotted (Obj [(''a.b'', Num 1)]) False False) = (Obj [], [''a.b'']) \<and>
   getMaskedOutFields \<lparr> mask_tree = Obj [(''x'', JBool True)] \<rparr> (Obj [([], Num 1)]) = [[]] \<and>
   getDottedMaskedOutFields \<lparr> mask_tree = Obj [(''x'', JBool True)] \<rparr>
       (collapseToDotted (Obj [([], Num 1)]) False False) = []"
  by code_simp

text \<open>
  C9, amended. Let the keys of \<open>v\<close> be non-empty, free of dots, distinct within each
  object, and none of them a name of \<open>Object.prototype\<close>. For every key \<open>q\<close> of the
  collapsed form of \<open>v\<close>: the dotted form reports \<open>q\<close> exactly when the structured form
  reports \<open>q\<close> or a path above \<open>q\<close> (the empty path is the root, above every key), and
  \<open>filterDottedObject\<close> keeps the entry \<open>q\<close> exactly when the structured form reports
  no such path. If moreover \<open>v\<close> has no sequence and no \<open>undefined\<close> property, then
  \<open>filterDottedObject\<close> of the collapsed form of \<open>v\<close> is the collapsed form of
  \<open>filterObject\<close> of \<open>v\<close>.
\<close>

theorem dotted_forms_amended:
  assumes "dottable v" and "protoFree v"
  shows "(\<forall>q \<in> set (keysOf (collapseToDotted v False False)).
            (q \<in> set (getDottedMaskedOutFields this (collapseToDotted v False False)) \<longleftrightarrow>
               (\<exists>p \<in> set (getMaskedOutFields this v).
                  p = [] \<or> prefix (splitDot p) (splitDot q))) \<and>
            (q \<in> set (keysOf (fst (filterDottedObject this (collapseToDotted v False False)))) \<longleftrightarrow>
               \<not> (\<exists>p \<in> set (getMaskedOutFields this v).
                  p = [] \<or> prefix (splitDot p) (splitDot q)))) \<and>
         (plain v \<and> noUndefined v \<longrightarrow>
            fst (filterDottedObject this (collapseToDotted v False False))
              = collapseToDotted (filterObject this v) False False)"
proof (intro conjI ballI impI)
  let ?d = "collapseToDotted v False False"
  fix q assume qk: "q \<in> set (keysOf ?d)"
  have ns: "\<not> isScalar v"
    using assms(1) qk by (auto simp: keys_collapseToDotted split: if_splits)
  then obtain qs where qs: "qs \<in> set (leaves v)" "q = joinDot qs"
    using assms(1) qk by (auto simp: keys_collapseToDotted)
  have ok: "list_all keyOK qs" using assms(1) qs(1) by (rule leaves_keyOK)
  have ne: "qs \<noteq> []" using qs(1) ns by (auto simp: set_leaves)
  have sq: "splitDot q = qs" unfolding qs(2) using ok ne by (rule splitDot_joinDot)
  have above: "(\<exists>p \<in> set (getMaskedOutFields this v). p = [] \<or> prefix (splitDot p) (splitDot q))
      \<longleftrightarrow> \<not> checkPath this q"
    unfolding qs(2) hook_above_iff [OF assms(1) ok ne]
    using outs_leaf [OF assms(1) qs(1), of "mask_tree this"] sq
    by (simp add: checkPath_iff qs(2))
  have "q \<in> set (getDottedMaskedOutFields this ?d) \<longleftrightarrow> \<not> checkPath this q"
    using qk by (simp add: getDottedMaskedOutFields_def filterDottedObject_def)
  then show "q \<in> set (getDottedMaskedOutFields this ?d) \<longleftrightarrow>
      (\<exists>p \<in> set (getMaskedOutFields this v). p = [] \<or> prefix (splitDot p) (splitDot q))"
    using above by simp
  have "q \<in> set (keysOf (fst (filterDottedObject this ?d))) \<longleftrightarrow> checkPath this q"
    using qk by (force simp: filterDottedObject_def keysOf_def)
  then show "q \<in> set (keysOf (fst (filterDottedObject this ?d))) \<longleftrightarrow>
      \<not> (\<exists>p \<in> set (getMaskedOutFields this v). p = [] \<or> prefix (splitDot p) (splitDot q))"
    using above by simp
next
  assume "plain v \<and> noUndefined v"
  then show "fst (filterDottedObject this (collapseToDotted v False False))
      = collapseToDotted (filterObject this v) False False"
    using assms(1) by (simp add: filterDotted_collapse)
qed

theorem dotted_forms_amended_witness:
  "dottable (Obj [(''foo'', Num 1), (''bar'', Obj [(''baz'', Num 2)])]) \<and>
   protoFree (Obj [(''foo'', Num 1), (''bar'', Obj [(''baz'', Num 2)])]) \<and>
   plain (Obj [(''foo'', Num 1), (''bar'', Obj [(''baz'', Num 2)])]) \<and>
   noUndefined (Obj [(''foo'', Num 1), (''bar'', Obj [(''baz'', Num 2)])]) \<and>
   ''bar.baz'' \<in> set (keysOf (collapseToDotted
        (Obj [(''foo'', Num 1), (''bar'', Obj [(''baz'', Num 2)])]) False False)) \<and>
   ''bar'' \<in> set (getMaskedOutFields \<lparr> mask_tree = Obj [(''foo'', JBool True)] \<rparr>
        (Obj [(''foo'', Num 1), (''bar'', Obj [(''baz'', Num 2)])])) \<and>
   ''bar.baz'' \<in> set (getDottedMaskedOutFields \<lparr> mask_tree = Obj [(''foo'', JBool True)] \<rparr>
        (collapseToDotted (Obj [(''foo'', Num 1), (''bar'', Obj [(''baz'', Num 2)])]) False False)) \<and>
   ''bar.baz'' \<notin> set (keysOf (fst (filterDottedObject \<lparr> mask_tree = Obj [(''foo'', JBool True)] \<rparr>
        (collapseToDotted (Obj [(''foo'', Num 1), (''bar'', Obj [(''baz'', Num 2)])]) False False)))) \<and>
   fst (filterDottedObject \<lparr> mask_tree = Obj [(''foo'', JBool True)] \<rparr>
        (collapseToDotted (Obj [(''foo'', Num 1), (''bar'', Obj [(''baz'', Num 2)])]) False False))
     = collapseToDotted (filterObject \<lparr> mask_tree = Obj [(''foo'', JBool True)] \<rparr>
        (Obj [(''foo'', Num 1), (''bar'', Obj [(''baz'', Num 2)])])) False False \<and>
   collapseToDotted (filterObject \<lparr> mask_tree = Obj [(''foo'', JBool True)] \<rparr>
        (Obj [(''foo'', Num 1), (''bar'', Obj [(''baz'', Num 2)])])) False False
     = Obj [(''foo'', Num 1)]"
proof -
  let ?v = "Obj [(''foo'', Num 1), (''bar'', Obj [(''baz'', Num 2)])]"
  let ?m = "\<lparr> mask_tree = Obj [(''foo'', JBool True)] \<rparr>"
  have d: "dottable ?v" by (simp add: keyOK_def)
  have f: "protoFree ?v" by (simp add: protoNames_def)
  have pn: "plain ?v" "noUndefined ?v" by simp_all
  have k: "''bar.baz'' \<in> set (keysOf (collapseToDotted ?v False False))"
    by (simp add: collapseToDotted_def addObj.simps keysOf_def)
  have g: "getMaskedOutFields ?m ?v = [''bar'']"
    by (simp add: getMaskedOutFields_def filterDeep.simps key_eval Let_def)
  have c: "collapseToDotted (filterObject ?m ?v) False False = Obj [(''foo'', Num 1)]"
    by (simp add: filterObject_def filterDeep.simps key_eval Let_def collapseToDotted_def
        addObj.simps)
  have p: "prefix (splitDot ''bar'') (splitDot ''bar.baz'')" by simp
  have ex: "\<exists>p \<in> set (getMaskedOutFields ?m ?v). p = [] \<or> prefix (splitDot p) (splitDot ''bar.baz'')"
    unfolding g using p by simp
  note t = dotted_forms_amended [OF d f, of ?m]
  from t k ex have r1: "''bar.baz'' \<in> set (getDottedMaskedOutFields ?m (collapseToDotted ?v False False))"
    by blast
  from t k ex have r2: "''bar.baz'' \<notin> set (keysOf (fst (filterDottedObject ?m (collapseToDotted ?v False False))))"
    by blast
  from t pn have r3: "fst (filterDottedObject ?m (collapseToDotted ?v False False))
      = collapseToDotted (filterObject ?m ?v) False False"
    by blast
  from d f pn k g r1 r2 r3 c show ?thesis by simp
qed


section \<open>The static algebra on a store\<close>

text \<open>
  The functions above compute with values; whether an operation writes to an object that
  the caller still holds cannot be asked of them. This section runs the static algebra
  on a store. An object or a sequence is a cell of the store, named by its address; a
  value is a primitive or a reference to a cell. Every assignment \<open>o[k] = v\<close> and every
  \<open>delete o[k]\<close> of the source rewrites the cell of \<open>o\<close>, every \<open>{}\<close>, \<open>[]\<close> and \<open>new\<close>
  appends a cell. The recursive functions carry fuel, since a store may hold a cycle;
  \<open>OutOfFuel\<close> is the run that has not returned yet.
\<close>

datatype hval = HUndefined | HNull | HBool bool | HNum int | HStr string | HRef nat

datatype cell = CObj "(string \<times> hval) list" | CArr "hval list"

type_synonym heap = "cell list"

datatype 'a outcome = OutOfFuel | Throws error heap | Returns 'a heap








































subsection \<open>What a run may write\<close>

text \<open>
  \<open>old\<close> is the store at the call. A value is fresh when it is a primitive or refers to a
  cell allocated since. A later store keeps the old one when the old store is a prefix of
  it, cell by cell, and the cells allocated since hold fresh values only.
\<close>

definition fresh :: "heap \<Rightarrow> hval \<Rightarrow> bool" where
  "fresh old v = (case v of HRef a \<Rightarrow> length old \<le> a | _ \<Rightarrow> True)"

fun cellVals :: "cell \<Rightarrow> hval set" where
  "cellVals (CObj kvs) = snd ` set kvs"
| "cellVals (CArr xs) = set xs"

definition keeps :: "heap \<Rightarrow> heap \<Rightarrow> bool" where
  "keeps old h \<longleftrightarrow>
     prefix old h \<and>
     (\<forall>a. length old \<le> a \<and> a < length h \<longrightarrow> (\<forall>v \<in> cellVals (h ! a). fresh old v))"

definition post :: "heap \<Rightarrow> ('a \<Rightarrow> bool) \<Rightarrow> 'a outcome \<Rightarrow> bool" where
  "post old Q res =
     (case res of OutOfFuel \<Rightarrow> True | Throws e h' \<Rightarrow> keeps old h'
      | Returns x h' \<Rightarrow> keeps old h' \<and> Q x)"





lemma post_weaken: "post old P m \<Longrightarrow> (\<And>x. P x \<Longrightarrow> Q x) \<Longrightarrow> post old Q m"
  by (cases m) (auto simp: post_def)


lemma fresh_prim [simp]:
  "fresh old HUndefined" "fresh old HNull" "fresh old (HBool b)" "fresh old (HNum i)"
  "fresh old (HStr s)"
  by (simp_all add: fresh_def)











































section \<open>The errors of the algebra\<close>























lemmas subtract_eval = subtract.simps isEqual.simps invert.simps sanitizeFalsies_def
  subtractMasks_def subtractMask_def clone_def newObjectMask_def cloneDeep_def
  underscorizeArrays_plain rewritesMinuend_def Let_def




text \<open>
  Not part of the amended claim: on boolean-leaved masks that both have a wildcard,
  the assignment \<open>a._[key] = ...\<close> of the second loop writes a property of the
  wildcard's value; when that value is a boolean the write raises a \<open>TypeError\<close>.
\<close>

lemma subtract_wildcard_TypeError:
  "subtractMasks (RawTree (Obj [(''_'', JBool True)]))
      (RawTree (Obj [(''_'', JBool False), (''foo'', JBool True)])) = Inl TypeError"
  by (simp add: subtract_eval key_eval)

end
